theory Spec2Isabelle
  imports Main "HOL-Library.AList"
begin

section \<open>JavaScript strings\<close>

text \<open>
  A JavaScript string is a sequence of UTF-16 code units. A code unit is modelled as a
  natural number, a string as the list of its code units. \<open>js\<close> turns an ASCII literal
  into such a list.
\<close>

type_synonym jschar = nat
type_synonym jsstring = "jschar list"

definition js :: "string \<Rightarrow> jsstring" where
  "js s = map of_char s"

text \<open>
  \<open>is_space\<close> is the set that \<open>String.prototype.trim\<close> strips and that the regular
  expression escape \<open>\s\<close> matches: the WhiteSpace and LineTerminator code points of
  ECMAScript.
\<close>

definition is_space :: "jschar \<Rightarrow> bool" where
  "is_space c =
     ((0x09 \<le> c \<and> c \<le> 0x0D) \<or> c = 0x20 \<or> c = 0xA0 \<or> c = 0x1680 \<or>
      (0x2000 \<le> c \<and> c \<le> 0x200A) \<or> c = 0x2028 \<or> c = 0x2029 \<or> c = 0x202F \<or>
      c = 0x205F \<or> c = 0x3000 \<or> c = 0xFEFF)"

definition is_line_terminator :: "jschar \<Rightarrow> bool" where
  "is_line_terminator c = (c = 0x0A \<or> c = 0x0D \<or> c = 0x2028 \<or> c = 0x2029)"

definition trim :: "jsstring \<Rightarrow> jsstring" where
  "trim s = rev (dropWhile is_space (rev (dropWhile is_space s)))"

definition startsWith :: "jsstring \<Rightarrow> jsstring \<Rightarrow> bool" where
  "startsWith s p = (take (length p) s = p)"

text \<open>\<open>s.includes(p)\<close>: \<open>p\<close> occurs in \<open>s\<close> at some position.\<close>

fun str_includes :: "jsstring \<Rightarrow> jsstring \<Rightarrow> bool" where
  "str_includes [] p = (p = [])"
| "str_includes (c # cs) p = (startsWith (c # cs) p \<or> str_includes cs p)"

text \<open>
  \<open>s.indexOf(p)\<close>: the first position at which \<open>p\<close> occurs in \<open>s\<close>; \<open>None\<close> stands
  for the result \<open>-1\<close>.
\<close>

fun indexOf :: "jsstring \<Rightarrow> jsstring \<Rightarrow> nat option" where
  "indexOf [] p = (if p = [] then Some 0 else None)"
| "indexOf (c # cs) p =
     (if startsWith (c # cs) p then Some 0 else map_option Suc (indexOf cs p))"

text \<open>
  \<open>toLowerCase\<close> on the ASCII letters. Code units outside ASCII are left as they are:
  their case mapping is outside this model.
\<close>

definition lower_char :: "jschar \<Rightarrow> jschar" where
  "lower_char c = (if 0x41 \<le> c \<and> c \<le> 0x5A then c + 0x20 else c)"

definition toLowerCase :: "jsstring \<Rightarrow> jsstring" where
  "toLowerCase s = map lower_char s"

section \<open>Regular expressions\<close>

text \<open>
  The regular expressions of the source are written in the constructors below and run
  by a backtracking matcher that follows ECMAScript: a match state is the text consumed
  so far (latest code unit first), the text still ahead and the captures; \<open>ends r st\<close>
  lists the states in which a match of \<open>r\<close> started in \<open>st\<close> can end, in the order in
  which backtracking tries them, so the head of the list is the match that JavaScript
  reports. A greedy star tries another round before stopping, a lazy star stops before it
  tries another round, and a round of a star or of \<open>?\<close> that consumes nothing is
  rejected, as in ECMAScript's RepeatMatcher. \<open>Bol\<close> is \<open>^\<close>, \<open>BolM\<close> and \<open>EolM\<close> are
  \<open>^\<close> and \<open>$\<close> under the flag \<open>m\<close>. The flag \<open>i\<close> is written into the character
  predicates. A group whose capture is never read is written without \<open>Group\<close>.
\<close>

record mstate =
  consumed :: jsstring
  remaining :: jsstring
  captures :: "(nat \<times> jsstring) list"

datatype regex =
    Chr "jschar \<Rightarrow> bool"
  | Empty
  | Seq regex regex
  | Alt regex regex
  | Star regex
  | LazyStar regex
  | Opt regex
  | Bol
  | BolM
  | EolM
  | Group nat regex
  | Backref nat

definition progress :: "mstate \<Rightarrow> mstate \<Rightarrow> bool" where
  "progress st st' = (length (remaining st') < length (remaining st))"

definition advance :: "mstate \<Rightarrow> mstate list" where
  "advance st =
     (case remaining st of
        [] \<Rightarrow> []
      | c # cs \<Rightarrow> [st\<lparr>consumed := c # consumed st, remaining := cs\<rparr>])"

fun match_literal :: "jsstring \<Rightarrow> mstate \<Rightarrow> mstate list" where
  "match_literal [] st = [st]"
| "match_literal (c # cs) st =
     (case remaining st of
        [] \<Rightarrow> []
      | d # ds \<Rightarrow> if c = d then concat (map (match_literal cs) (advance st)) else [])"

definition set_capture :: "nat \<Rightarrow> mstate \<Rightarrow> mstate \<Rightarrow> mstate" where
  "set_capture n st st' =
     st'\<lparr>captures :=
        (n, take (length (remaining st) - length (remaining st')) (remaining st)) # captures st'\<rparr>"

function ends :: "regex \<Rightarrow> mstate \<Rightarrow> mstate list" where
  "ends (Chr p) st =
     (case remaining st of [] \<Rightarrow> [] | c # cs \<Rightarrow> if p c then advance st else [])"
| "ends Empty st = [st]"
| "ends (Seq a b) st = concat (map (ends b) (ends a st))"
| "ends (Alt a b) st = ends a st @ ends b st"
| "ends (Star a) st =
     concat (map (ends (Star a)) (filter (progress st) (ends a st))) @ [st]"
| "ends (LazyStar a) st =
     st # concat (map (ends (LazyStar a)) (filter (progress st) (ends a st)))"
| "ends (Opt a) st = filter (progress st) (ends a st) @ [st]"
| "ends Bol st = (if consumed st = [] then [st] else [])"
| "ends BolM st =
     (case consumed st of
        [] \<Rightarrow> [st]
      | c # _ \<Rightarrow> if is_line_terminator c then [st] else [])"
| "ends EolM st =
     (case remaining st of
        [] \<Rightarrow> [st]
      | c # _ \<Rightarrow> if is_line_terminator c then [st] else [])"
| "ends (Group n a) st = map (set_capture n st) (ends a st)"
| "ends (Backref n) st =
     (case map_of (captures st) n of None \<Rightarrow> [st] | Some w \<Rightarrow> match_literal w st)"
  by pat_completeness auto
termination
  by (relation "measures [\<lambda>(r, st). size r, \<lambda>(r, st). length (remaining st)]")
     (auto simp: progress_def)

lemmas ends_Seq = ends.simps(3)
lemmas ends_Star = ends.simps(5)
lemmas ends_LazyStar = ends.simps(6)

declare ends.simps(3,5,6) [simp del]

text \<open>
  \<open>search r bef s\<close> is RegExpBuiltinExec without the sticky flag: the leftmost position
  of \<open>s\<close> at which \<open>r\<close> matches, given that \<open>bef\<close> precedes \<open>s\<close>; it returns the state
  where the match starts and the state where it ends.
\<close>

fun search :: "regex \<Rightarrow> jsstring \<Rightarrow> jsstring \<Rightarrow> (mstate \<times> mstate) option" where
  "search r bef [] =
     (let st = \<lparr>consumed = bef, remaining = [], captures = []\<rparr>
      in case ends r st of [] \<Rightarrow> None | e # _ \<Rightarrow> Some (st, e))"
| "search r bef (c # cs) =
     (let st = \<lparr>consumed = bef, remaining = c # cs, captures = []\<rparr>
      in case ends r st of [] \<Rightarrow> search r (c # bef) cs | e # _ \<Rightarrow> Some (st, e))"

declare search.simps [simp del]

text \<open>\<open>r.test(s)\<close> for a regular expression without the flags \<open>g\<close> and \<open>y\<close>.\<close>

definition rx_test :: "regex \<Rightarrow> jsstring \<Rightarrow> bool" where
  "rx_test r s = (search r [] s \<noteq> None)"

definition start_state :: "jsstring \<Rightarrow> mstate" where
  "start_state s = \<lparr>consumed = [], remaining = s, captures = []\<rparr>"

definition seqs :: "regex list \<Rightarrow> regex" where
  "seqs rs = foldr Seq rs Empty"

definition Plus :: "regex \<Rightarrow> regex" where
  "Plus r = Seq r (Star r)"

subsection \<open>Character predicates\<close>

text \<open>
  Under the flag \<open>i\<close> (without \<open>u\<close>) two code units match when their canonical forms
  agree. The canonical form is the upper-case mapping, except that a code unit from 128
  on never maps below 128; so an ASCII letter of a pattern matches its two ASCII cases and
  nothing else, and \<open>[a-z]\<close> matches the ASCII letters of both cases.
\<close>

definition chr_eq :: "char \<Rightarrow> jschar \<Rightarrow> bool" where
  "chr_eq k c = (c = of_char k)"

definition chr_i :: "char \<Rightarrow> jschar \<Rightarrow> bool" where
  "chr_i k c = (lower_char c = lower_char (of_char k))"

definition any_char :: "jschar \<Rightarrow> bool" where
  "any_char c = True"

definition is_digit :: "jschar \<Rightarrow> bool" where
  "is_digit c = (0x30 \<le> c \<and> c \<le> 0x39)"

definition is_alpha_i :: "jschar \<Rightarrow> bool" where
  "is_alpha_i c = ((0x61 \<le> c \<and> c \<le> 0x7A) \<or> (0x41 \<le> c \<and> c \<le> 0x5A))"

definition is_alnum_i :: "jschar \<Rightarrow> bool" where
  "is_alnum_i c = (is_alpha_i c \<or> is_digit c)"

definition lit :: "string \<Rightarrow> regex" where
  "lit s = seqs (map (\<lambda>k. Chr (chr_eq k)) s)"

definition lit_i :: "string \<Rightarrow> regex" where
  "lit_i s = seqs (map (\<lambda>k. Chr (chr_i k)) s)"

section \<open>The URL normalizer (src/lib/tiptap-utils.ts, normalizeUrl)\<close>

text \<open>\<open>/^https?:\/\//i\<close>\<close>

definition rx_http :: regex where
  "rx_http = seqs [Bol, lit_i ''http'', Opt (Chr (chr_i CHR ''s'')), lit_i ''://'']"

text \<open>\<open>/^[a-z][a-z0-9+.-]*:/i\<close>\<close>

definition is_scheme_char :: "jschar \<Rightarrow> bool" where
  "is_scheme_char c =
     (is_alnum_i c \<or> chr_eq CHR ''+'' c \<or> chr_eq CHR ''.'' c \<or> chr_eq CHR ''-'' c)"

definition rx_scheme :: regex where
  "rx_scheme = seqs [Bol, Chr is_alpha_i, Star (Chr is_scheme_char), Chr (chr_eq CHR '':'')]"

text \<open>\<open>/^[a-z0-9]([a-z0-9-]*[a-z0-9])?(\.[a-z0-9]([a-z0-9-]*[a-z0-9])?)+/i\<close>\<close>

definition is_label_char :: "jschar \<Rightarrow> bool" where
  "is_label_char c = (is_alnum_i c \<or> chr_eq CHR ''-'' c)"

definition rx_label :: regex where
  "rx_label = seqs [Chr is_alnum_i, Opt (seqs [Star (Chr is_label_char), Chr is_alnum_i])]"

definition rx_domain :: regex where
  "rx_domain = seqs [Bol, rx_label, Plus (seqs [Chr (chr_eq CHR ''.''), rx_label])]"

text \<open>
  \<open>normalizeUrl\<close>. The parameter is typed \<open>string\<close>, so of the guard
  \<open>!url || typeof url !== 'string'\<close> the empty string is what remains.
\<close>

definition normalizeUrl :: "jsstring \<Rightarrow> jsstring" where
  "normalizeUrl url =
     (if url = [] then url
      else
        let trimmedUrl = trim url in
        if rx_test rx_http trimmedUrl then trimmedUrl
        else if rx_test rx_scheme trimmedUrl then trimmedUrl
        else if startsWith trimmedUrl (js ''/'') \<or> startsWith trimmedUrl (js ''#'') \<or>
                trimmedUrl = []
        then trimmedUrl
        else if rx_test rx_domain trimmedUrl then js ''https://'' @ trimmedUrl
        else trimmedUrl)"

subsection \<open>The shapes the normalizer tests, stated on the string\<close>

text \<open>
  An explicit scheme: a letter, then letters, digits, \<open>+\<close>, \<open>.\<close> or \<open>-\<close>, then a
  colon.
\<close>

definition has_scheme :: "jsstring \<Rightarrow> bool" where
  "has_scheme s =
     (case s of
        [] \<Rightarrow> False
      | a # rest \<Rightarrow>
          is_alpha_i a \<and>
          (case dropWhile is_scheme_char rest of [] \<Rightarrow> False | c # _ \<Rightarrow> chr_eq CHR '':'' c))"

definition dot_then_alnum :: "jsstring \<Rightarrow> bool" where
  "dot_then_alnum s =
     (case s of d # e # _ \<Rightarrow> chr_eq CHR ''.'' d \<and> is_alnum_i e | _ \<Rightarrow> False)"

text \<open>
  The string begins with a label (letters, digits and hyphens, with a letter or digit
  at both ends), a dot and the first letter or digit of a second label.
\<close>

definition starts_with_domain :: "jsstring \<Rightarrow> bool" where
  "starts_with_domain s =
     (case s of
        [] \<Rightarrow> False
      | a # rest \<Rightarrow>
          is_alnum_i a \<and> is_alnum_i (last (a # takeWhile is_label_char rest)) \<and>
          dot_then_alnum (dropWhile is_label_char rest))"

text \<open>
  A bare domain, as a whole string: two or more labels separated by dots, each label
  made of letters, digits and hyphens and with a letter or digit at both ends.
\<close>

definition is_label :: "jsstring \<Rightarrow> bool" where
  "is_label l = (l \<noteq> [] \<and> list_all is_label_char l \<and> is_alnum_i (hd l) \<and> is_alnum_i (last l))"

definition not_dot :: "jschar \<Rightarrow> bool" where
  "not_dot c = (\<not> chr_eq CHR ''.'' c)"

function labels :: "jsstring \<Rightarrow> jsstring list" where
  "labels s =
     (case dropWhile not_dot s of
        [] \<Rightarrow> [takeWhile not_dot s]
      | d # r \<Rightarrow> takeWhile not_dot s # labels r)"
  by pat_completeness auto
termination
proof (relation "measure length")
  fix s :: jsstring and d r
  assume "dropWhile not_dot s = d # r"
  then have "length (d # r) \<le> length s"
    by (metis length_dropWhile_le)
  then show "(r, s) \<in> measure length" by simp
qed simp

declare labels.simps [simp del]

definition bare_domain :: "jsstring \<Rightarrow> bool" where
  "bare_domain d = (2 \<le> length (labels d) \<and> list_all is_label (labels d))"

section \<open>The content-type classifier (src/components/PreviewPanel.tsx, detectContentType)\<close>

text \<open>
  \<open>s.match(r)\<close> for a regular expression with the flag \<open>g\<close>: every match, found by
  running the search again from the end of the match before; after an empty match the
  search moves on by one code unit. The result \<open>null\<close> for no match is the empty list,
  which is what \<open>(s.match(r) || [])\<close> makes of it.
\<close>

function match_all :: "regex \<Rightarrow> jsstring \<Rightarrow> jsstring \<Rightarrow> jsstring list" where
  "match_all r bef s =
     (case search r bef s of
        None \<Rightarrow> []
      | Some (st, e) \<Rightarrow>
          let m = take (length (remaining st) - length (remaining e)) (remaining st) in
          if m = []
          then (case remaining e of
                  [] \<Rightarrow> [m]
                | c # cs \<Rightarrow> m # match_all r (c # consumed e) cs)
          else m # match_all r (consumed e) (remaining e))"
  by pat_completeness auto

lemma match_literal_remaining_le:
  "e \<in> set (match_literal w st) \<Longrightarrow> length (remaining e) \<le> length (remaining st)"
proof (induction w arbitrary: st)
  case Nil
  then show ?case by simp
next
  case (Cons c w)
  show ?case
  proof (cases "remaining st")
    case Nil
    then show ?thesis using Cons.prems by simp
  next
    case (Cons d ds)
    then have "e \<in> set (match_literal w (st\<lparr>consumed := d # consumed st, remaining := ds\<rparr>))"
      using Cons.prems by (simp add: advance_def split: if_splits)
    from Cons.IH[OF this] show ?thesis using Cons by simp
  qed
qed

lemma advance_remaining:
  "e \<in> set (advance st) \<Longrightarrow> Suc (length (remaining e)) = length (remaining st)"
  by (cases "remaining st") (simp_all add: advance_def)

lemma ends_remaining_le:
  "e \<in> set (ends r st) \<Longrightarrow> length (remaining e) \<le> length (remaining st)"
proof (induction r st arbitrary: e rule: ends.induct)
  case (1 p st)
  then have "e \<in> set (advance st)" by (auto split: list.splits if_splits)
  then show ?case using advance_remaining by fastforce
next
  case (3 a b st)
  then obtain x where "x \<in> set (ends a st)" "e \<in> set (ends b x)"
    by (auto simp: ends_Seq)
  then show ?case using "3.IH"(1)[of x] "3.IH"(2)[of x e] by simp
next
  case (5 a st)
  from "5.prems" have "e = st \<or> (\<exists>x\<in>set (ends a st). progress st x \<and> e \<in> set (ends (Star a) x))"
    by (subst (asm) ends_Star) auto
  then show ?case using "5.IH"(2) by (fastforce simp: progress_def)
next
  case (6 a st)
  from "6.prems" have "e = st \<or> (\<exists>x\<in>set (ends a st). progress st x \<and> e \<in> set (ends (LazyStar a) x))"
    by (subst (asm) ends_LazyStar) auto
  then show ?case using "6.IH"(2) by (fastforce simp: progress_def)
next
  case (12 n st)
  then show ?case by (auto simp: match_literal_remaining_le split: option.splits)
qed (auto simp: set_capture_def split: list.splits if_splits)

lemma search_Some:
  "search r bef s = Some (st, e) \<Longrightarrow>
   length (remaining st) \<le> length s \<and> e \<in> set (ends r st)"
proof (induction s arbitrary: bef)
  case Nil
  then show ?case by (auto simp: search.simps Let_def split: list.splits)
next
  case (Cons c cs)
  show ?case
  proof (cases "ends r \<lparr>consumed = bef, remaining = c # cs, captures = []\<rparr>")
    case Nil
    then have "search r (c # bef) cs = Some (st, e)"
      using Cons.prems by (simp add: search.simps)
    then show ?thesis using Cons.IH by fastforce
  next
    case (Cons x xs)
    then show ?thesis using Cons.prems by (auto simp: search.simps)
  qed
qed

termination match_all
proof (relation "measure (\<lambda>(r, bef, s). length s)")
  show "wf (measure (\<lambda>(r, bef, s). length s))" by simp
next
  fix r bef s x2 st e m c cs
  assume a: "search r bef s = Some x2" "(st, e) = x2"
    "m = take (length (remaining st) - length (remaining e)) (remaining st)"
    "m = []" "remaining e = c # cs"
  then have "length (remaining st) \<le> length s" "length (remaining e) \<le> length (remaining st)"
    using search_Some[of r bef s st e] ends_remaining_le[of e r st] by auto
  then show "((r, c # consumed e, cs), (r, bef, s)) \<in> measure (\<lambda>(r, bef, s). length s)"
    using a by simp
next
  fix r bef s x2 st e m
  assume a: "search r bef s = Some x2" "(st, e) = x2"
    "m = take (length (remaining st) - length (remaining e)) (remaining st)"
    "m \<noteq> []"
  then have "length (remaining st) \<le> length s" "length (remaining e) \<le> length (remaining st)"
    using search_Some[of r bef s st e] ends_remaining_le[of e r st] by auto
  moreover have "length (remaining e) \<noteq> length (remaining st)" using a by auto
  ultimately show "((r, consumed e, remaining e), (r, bef, s)) \<in> measure (\<lambda>(r, bef, s). length s)"
    by simp
qed

declare match_all.simps [simp del]

datatype ContentType = Html | Markdown

text \<open>\<open>/<\/?[a-z][\s\S]*>/i\<close>, also used with the flag \<open>g\<close>; \<open>[\s\S]\<close> is any code unit.\<close>

definition htmlTagPattern :: regex where
  "htmlTagPattern =
     seqs [Chr (chr_eq CHR ''<''), Opt (Chr (chr_eq CHR ''/'')), Chr is_alpha_i,
           Star (Chr any_char), Chr (chr_eq CHR ''>'')]"

text \<open>\<open>/<\/[a-z][\s\S]*>/gi\<close>\<close>

definition closingTagPattern :: regex where
  "closingTagPattern =
     seqs [Chr (chr_eq CHR ''<''), Chr (chr_eq CHR ''/''), Chr is_alpha_i,
           Star (Chr any_char), Chr (chr_eq CHR ''>'')]"

text \<open>
  The thirteen patterns of \<open>markdownPatterns\<close>, in the order of the source. \<open>dot\<close> is
  \<open>.\<close>, any code unit but a line terminator; \<open>upto n r\<close> is at most \<open>n\<close> greedy
  repetitions of \<open>r\<close>, so that \<open>#{1,6}\<close> is one \<open>#\<close> and up to five more.
\<close>

definition dot :: "jschar \<Rightarrow> bool" where
  "dot c = (\<not> is_line_terminator c)"

definition chr_none :: "string \<Rightarrow> jschar \<Rightarrow> bool" where
  "chr_none ks c = (c \<notin> of_char ` set ks)"

fun upto :: "nat \<Rightarrow> regex \<Rightarrow> regex" where
  "upto 0 r = Empty"
| "upto (Suc n) r = Opt (Seq r (upto n r))"

definition LazyPlus :: "regex \<Rightarrow> regex" where
  "LazyPlus r = Seq r (LazyStar r)"

definition markdownPatterns :: "regex list" where
  \<open>markdownPatterns =
     [seqs [Chr (chr_eq CHR ''#''), upto 5 (Chr (chr_eq CHR ''#'')), Plus (Chr is_space), Plus (Chr dot)],
      seqs [lit ''**'', LazyStar (Chr dot), lit ''**''],
      seqs [lit ''*'', Chr (chr_none [CHR ''*'', CHR 0x0A]), LazyStar (Chr dot), lit ''*''],
      seqs [BolM, lit ''- '', Plus (Chr dot)],
      seqs [BolM, Plus (Chr is_digit), lit ''. '', Plus (Chr dot)],
      seqs [lit ''```'', LazyStar (Chr any_char), lit ''```''],
      seqs [lit ''`'', Plus (Chr (chr_none [CHR ''`'', CHR 0x0A])), lit ''`''],
      seqs [lit ''['', Star (Chr (chr_none [CHR '']''])), lit '']('', Plus (Chr (chr_none [CHR '')''])), lit '')''],
      seqs [lit ''![]('', Plus (Chr (chr_none [CHR '')''])), lit '')''],
      seqs [lit ''!['', Star (Chr (chr_none [CHR '']''])), lit '']('', Plus (Chr (chr_none [CHR '')''])), lit '')''],
      seqs [BolM, lit ''> '', Plus (Chr dot)],
      seqs [BolM, lit ''---'', EolM],
      seqs [lit ''|'', Plus (Chr dot), lit ''|'']]\<close>

definition markdownScore :: "jsstring \<Rightarrow> nat" where
  "markdownScore trimmed =
     foldl (\<lambda>score pattern. score + (if rx_test pattern trimmed then 1 else 0)) 0 markdownPatterns"

definition detectContentType :: "jsstring \<Rightarrow> ContentType" where
  "detectContentType content =
     (if content = [] \<or> length (trim content) = 0 then Html
      else
        let trimmed = trim content;
            hasHtmlTags = rx_test htmlTagPattern trimmed;
            htmlTagCount = length (match_all htmlTagPattern [] trimmed);
            closingTagCount = length (match_all closingTagPattern [] trimmed)
        in
          if hasHtmlTags \<and> closingTagCount > 0 \<and> htmlTagCount \<ge> 2 then Html
          else if hasHtmlTags \<and> markdownScore trimmed = 0 then Html
          else if markdownScore trimmed > 0 then Markdown
          else if startsWith trimmed (js ''<'') \<and> str_includes trimmed (js ''>'') then Html
          else Html)"

text \<open>
  A tag-like token as the classifier's rule means it, one tag from \<open><\<close> to the next
  \<open>>\<close>: \<open>/<\/?[a-z][^>]*>/gi\<close> and, for a closing tag, \<open>/<\/[a-z][^>]*>/gi\<close>. These
  two are not in the source; they count the tags of an input in the statements below.
\<close>

definition tagToken :: regex where
  "tagToken =
     seqs [Chr (chr_eq CHR ''<''), Opt (Chr (chr_eq CHR ''/'')), Chr is_alpha_i,
           Star (Chr (chr_none [CHR ''>''])), Chr (chr_eq CHR ''>'')]"

definition closingTagToken :: regex where
  "closingTagToken =
     seqs [Chr (chr_eq CHR ''<''), Chr (chr_eq CHR ''/''), Chr is_alpha_i,
           Star (Chr (chr_none [CHR ''>''])), Chr (chr_eq CHR ''>'')]"

text \<open>
  The first state of a list of match ends, if there is one, has no \<open>>\<close> ahead of it.
\<close>

definition no_gt_ahead :: "mstate list \<Rightarrow> bool" where
  "no_gt_ahead l = (case l of [] \<Rightarrow> True | e # _ \<Rightarrow> of_char CHR ''>'' \<notin> set (remaining e))"

section \<open>The image node (CustomImage.renderHTML, CustomImageNodeView)\<close>

text \<open>
  The attributes of an image node that the two functions read. \<open>None\<close> stands for
  \<open>null\<close> or \<open>undefined\<close>.
\<close>

record ImageAttrs =
  originalSrc :: "jsstring option"
  src :: "jsstring option"
  alt :: "jsstring option"
  title :: "jsstring option"

text \<open>A value is truthy when it is a string that is not empty; \<open>a || b\<close> on such values.\<close>

definition truthy :: "jsstring option \<Rightarrow> bool" where
  "truthy v = (case v of None \<Rightarrow> False | Some s \<Rightarrow> s \<noteq> [])"

definition js_or :: "jsstring option \<Rightarrow> jsstring option \<Rightarrow> jsstring option" where
  "js_or a b = (if truthy a then a else b)"

text \<open>
  \<open>s.match(r)[n]\<close> for a regular expression without the flag \<open>g\<close>: capture \<open>n\<close> of the
  first match, \<open>None\<close> when there is no match.
\<close>

definition rx_match_group :: "regex \<Rightarrow> nat \<Rightarrow> jsstring \<Rightarrow> jsstring option" where
  "rx_match_group r n s =
     (case search r [] s of None \<Rightarrow> None | Some (st, e) \<Rightarrow> map_of (captures e) n)"

text \<open>\<open>/^([^\s"']+)/\<close>\<close>

definition is_url_char :: "jschar \<Rightarrow> bool" where
  "is_url_char c = (\<not> is_space c \<and> c \<noteq> 0x22 \<and> c \<noteq> 0x27)"

definition rx_url_part :: regex where
  "rx_url_part = seqs [Bol, Group 1 (Plus (Chr is_url_char))]"

text \<open>The test of line 148: the stored value carries text of another attribute.\<close>

definition contaminated :: "jsstring \<Rightarrow> bool" where
  \<open>contaminated trimmedSrc =
     (str_includes trimmedSrc (js '' alt='') \<or> str_includes trimmedSrc (js '' title='') \<or>
      str_includes trimmedSrc (js ''alt="'') \<or> str_includes trimmedSrc (js ''title="''))\<close>

text \<open>
  Lines 143 to 163: the cleaning of \<open>originalSrc\<close>. A value that is \<open>null\<close> or empty is
  left as it is.
\<close>

definition cleanOriginalSrc :: "jsstring option \<Rightarrow> jsstring option" where
  "cleanOriginalSrc v =
     (case v of
        None \<Rightarrow> None
      | Some s \<Rightarrow>
          if s = [] then Some s
          else
            let trimmedSrc = trim s;
                urlMatch = (case rx_match_group rx_url_part 1 trimmedSrc of
                              Some u \<Rightarrow> Some u
                            | None \<Rightarrow> Some s)
            in
              if contaminated trimmedSrc
              then (case indexOf trimmedSrc (js '' '') of
                      Some spaceIndex \<Rightarrow>
                        if 0 < spaceIndex then Some (take spaceIndex trimmedSrc) else urlMatch
                    | None \<Rightarrow> urlMatch)
              else Some trimmedSrc)"

text \<open>
  \<open>attrs[key] = value\<close> on an object whose keys keep their insertion order is
  \<open>AList.update\<close>. The entries of \<open>HTMLAttributes\<close> carry \<open>None\<close> for a value that is
  not a string.
\<close>

definition copyStringAttributes ::
  "(jsstring \<times> jsstring option) list \<Rightarrow> (jsstring \<times> jsstring) list" where
  "copyStringAttributes restAttributes =
     foldl (\<lambda>attrs (key, v). case v of Some x \<Rightarrow> AList.update key x attrs | None \<Rightarrow> attrs)
       [] restAttributes"

definition setIfPresent ::
  "jsstring \<Rightarrow> jsstring option \<Rightarrow> (jsstring \<times> jsstring) list \<Rightarrow> (jsstring \<times> jsstring) list" where
  "setIfPresent key v attrs =
     (case v of
        None \<Rightarrow> attrs
      | Some s \<Rightarrow> if s \<noteq> [] then AList.update key (trim s) attrs else attrs)"

definition renderHTML ::
  "(jsstring \<times> jsstring option) list \<Rightarrow> ImageAttrs \<Rightarrow> jsstring \<times> (jsstring \<times> jsstring) list" where
  "renderHTML HTMLAttributes node =
     (let cleaned = cleanOriginalSrc (js_or (originalSrc node) (src node));
          restAttributes =
            filter (\<lambda>(key, v). key \<noteq> js ''src'' \<and> key \<noteq> js ''alt'' \<and> key \<noteq> js ''title'')
              HTMLAttributes;
          attrs = copyStringAttributes restAttributes;
          attrs = setIfPresent (js ''src'') cleaned attrs;
          attrs = setIfPresent (js ''alt'') (alt node) attrs;
          attrs = setIfPresent (js ''title'') (title node) attrs
      in (js ''img'', attrs))"

text \<open>
  CustomImageNodeView, lines 6 to 17: the URL shown on screen. \<open>renderImage\<close> is the
  option of the extension, \<open>None\<close> when it is not given.
\<close>

definition displaySrc :: "(jsstring \<Rightarrow> jsstring) option \<Rightarrow> ImageAttrs \<Rightarrow> jsstring option" where
  "displaySrc renderImage node =
     (let shown = js_or (originalSrc node) (src node)
      in case renderImage of
           Some f \<Rightarrow> (case shown of Some s \<Rightarrow> if s \<noteq> [] then Some (f s) else shown | None \<Rightarrow> shown)
         | None \<Rightarrow> shown)"

section \<open>The tag render dispatcher (src/components/PreviewPanel.tsx, PreviewPanel)\<close>

subsection \<open>Trees\<close>

text \<open>
  A node of the tree that the markup parser hands to \<open>replace\<close>: a text node, an
  element with its node type (\<open>tag\<close>, or \<open>script\<close> or \<open>style\<close> for these two
  elements), its name, its attributes and its children, or a node of another kind
  (comment, directive). The attributes are an object whose keys keep their insertion
  order: an association list, read with \<open>map_of\<close> and written with \<open>AList.update\<close>.
\<close>

datatype ElementType = Tag | Script | Style

datatype DOMNode =
    Text jsstring
  | Element ElementType jsstring "(jsstring \<times> jsstring) list" "DOMNode list"
  | Other

text \<open>
  What is rendered: literal text, or an element with its type (a tag name, or the name
  of a component), its props and its children. The children are kept as one flat list,
  as React renders nested arrays of children.
\<close>

datatype ReactNode =
    RText jsstring
  | RElement jsstring "(jsstring \<times> jsstring) list" "ReactNode list"

record TagRenderContext =
  tagName :: jsstring
  attributes :: "(jsstring \<times> jsstring) list"
  innerHTML :: jsstring
  originalHTML :: jsstring

text \<open>
  What a call of a registered renderer does: it throws, or it returns a React element
  (type, props, children), a string, or a value that is neither.
\<close>

datatype RendererResult =
    Throws
  | ReturnsElement jsstring "(jsstring \<times> jsstring) list" "ReactNode list"
  | ReturnsString jsstring
  | ReturnsOther

type_synonym TagRenderer = "TagRenderContext \<Rightarrow> RendererResult"

type_synonym Renderers = "(jsstring \<times> TagRenderer) list"

text \<open>
  What \<open>replace\<close> returns: \<open>undefined\<close>, a React element, what
  \<open>parse(result, recursiveOptions)\<close> returned (the list of the nodes it rendered, which
  the parser library hands back as the node itself when there is one and as an array
  otherwise), or the string of the renderer.
\<close>

datatype Replaced =
    Undefined
  | ReplacedElement ReactNode
  | ReplacedParsed "ReactNode list"
  | ReplacedString jsstring

text \<open>
  The options a walk runs under: \<open>options\<close> itself, or the \<open>recursiveOptions\<close> made
  for a tag name.
\<close>

datatype Options = TopOptions | RecursiveOptions jsstring

subsection \<open>The \<open>replace\<close> option\<close>

text \<open>
  Lines 257 to 271, the default pass on an anchor: \<open>href\<close> is normalized when it is
  there and not empty, \<open>target\<close> and \<open>rel\<close> are set when they are missing or empty.
\<close>

definition linkSafety :: "(jsstring \<times> jsstring) list \<Rightarrow> (jsstring \<times> jsstring) list" where
  "linkSafety attribs =
     (let a1 = (case map_of attribs (js ''href'') of
                  Some href \<Rightarrow>
                    if href \<noteq> [] then AList.update (js ''href'') (normalizeUrl href) attribs
                    else attribs
                | None \<Rightarrow> attribs);
          a2 = (if truthy (map_of a1 (js ''target'')) then a1
                else AList.update (js ''target'') (js ''_blank'') a1);
          a3 = (if truthy (map_of a2 (js ''rel'')) then a2
                else AList.update (js ''rel'') (js ''noopener noreferrer'') a2)
      in a3)"

text \<open>
  Lines 278 to 298: the context handed to a renderer. Both branches of the source leave
  \<open>innerHTML\<close> empty, and \<open>originalHTML\<close> is the empty string.
\<close>

definition makeContext ::
  "jsstring \<Rightarrow> (jsstring \<times> jsstring) list \<Rightarrow> DOMNode list \<Rightarrow> TagRenderContext" where
  "makeContext name attribs children =
     \<lparr>tagName = name,
      attributes = foldl (\<lambda>acc (key, v). AList.update (toLowerCase key) v acc) [] attribs,
      innerHTML = (if children \<noteq> [] then [] else []),
      originalHTML = []\<rparr>"

text \<open>
  What the parser library makes of the value \<open>replace\<close> returned: it puts a valid React
  element in the place of the node and renders the node by default otherwise. An array
  and a string are not React elements.
\<close>

fun accepted :: "Replaced \<Rightarrow> ReactNode option" where
  "accepted (ReplacedElement e) = Some e"
| "accepted (ReplacedParsed [RElement ty props children]) = Some (RElement ty props children)"
| "accepted _ = None"

text \<open>
  \<open>replace\<close> (lines 251 to 354), \<open>recursiveOptions.replace\<close> (lines 327 to 334) and
  the walk \<open>domToReact\<close> of the parser library, which calls the \<open>replace\<close> of its
  options on every node of a list and renders by default, children included, each node
  for which no React element came back. \<open>replace\<close> returns the attributes of the node as
  it leaves them, beside its value. The first argument bounds how deep calls of \<open>parse\<close>
  from inside \<open>replace\<close> may nest; \<open>None\<close> is a run that needs more. The parser, from a
  string to the list of the top nodes, is a parameter.
\<close>

function replace ::
    "nat \<Rightarrow> Renderers \<Rightarrow> (jsstring \<Rightarrow> DOMNode list) \<Rightarrow> DOMNode \<Rightarrow>
     ((jsstring \<times> jsstring) list \<times> Replaced) option"
  and recursiveReplace ::
    "nat \<Rightarrow> Renderers \<Rightarrow> (jsstring \<Rightarrow> DOMNode list) \<Rightarrow> jsstring \<Rightarrow> DOMNode \<Rightarrow>
     ((jsstring \<times> jsstring) list \<times> Replaced) option"
  and domToReact ::
    "nat \<Rightarrow> Renderers \<Rightarrow> (jsstring \<Rightarrow> DOMNode list) \<Rightarrow> Options \<Rightarrow> DOMNode list \<Rightarrow>
     ReactNode list option"
where
  "replace depth renderers parser (Text s) = Some ([], Undefined)"
| "replace depth renderers parser Other = Some ([], Undefined)"
| "replace depth renderers parser (Element ty name attribs children) =
     (if ty = Tag \<and> name \<noteq> [] then
        let tag = toLowerCase name;
            attribs' = (if tag = js ''a'' \<and> map_of renderers (js ''a'') = None
                        then linkSafety attribs else attribs)
        in case map_of renderers tag of
             None \<Rightarrow> Some (attribs', Undefined)
           | Some renderer \<Rightarrow>
               (case renderer (makeContext tag attribs' children) of
                  Throws \<Rightarrow> Some (attribs', Undefined)
                | ReturnsElement rty props existingChildren \<Rightarrow>
                    if children \<noteq> [] then
                      (case domToReact depth renderers parser TopOptions children of
                         None \<Rightarrow> None
                       | Some childElements \<Rightarrow>
                           Some (attribs',
                             ReplacedElement (RElement rty props (existingChildren @ childElements))))
                    else Some (attribs', ReplacedElement (RElement rty props existingChildren))
                | ReturnsString result \<Rightarrow>
                    if startsWith (trim result) (js ''<'') then
                      (case depth of
                         0 \<Rightarrow> None
                       | Suc depth' \<Rightarrow>
                           (case domToReact depth' renderers parser (RecursiveOptions tag)
                                   (parser result) of
                              None \<Rightarrow> None
                            | Some parsed \<Rightarrow> Some (attribs', ReplacedParsed parsed)))
                    else Some (attribs', ReplacedString result)
                | ReturnsOther \<Rightarrow> Some (attribs', Undefined))
      else Some (attribs, Undefined))"
| "recursiveReplace depth renderers parser tag (Text s) =
     replace depth renderers parser (Text s)"
| "recursiveReplace depth renderers parser tag Other =
     replace depth renderers parser Other"
| "recursiveReplace depth renderers parser tag (Element ty name attribs children) =
     (if ty = Tag \<and> name = tag then Some (attribs, Undefined)
      else replace depth renderers parser (Element ty name attribs children))"
| "domToReact depth renderers parser opts [] = Some []"
| "domToReact depth renderers parser opts (node # rest) =
     (case (case opts of
              TopOptions \<Rightarrow> replace depth renderers parser node
            | RecursiveOptions tag \<Rightarrow> recursiveReplace depth renderers parser tag node) of
        None \<Rightarrow> None
      | Some (attribs', replaced) \<Rightarrow>
          (case (case accepted replaced of
                   Some element \<Rightarrow> Some [element]
                 | None \<Rightarrow>
                     (case node of
                        Text s \<Rightarrow> Some [RText s]
                      | Other \<Rightarrow> Some []
                      | Element ty name attribs children \<Rightarrow>
                          (case domToReact depth renderers parser opts children of
                             None \<Rightarrow> None
                           | Some childElements \<Rightarrow>
                               Some [RElement name attribs' childElements]))) of
             None \<Rightarrow> None
           | Some rendered \<Rightarrow>
               (case domToReact depth renderers parser opts rest of
                  None \<Rightarrow> None
                | Some others \<Rightarrow> Some (rendered @ others))))"
  by pat_completeness auto

termination
  by lexicographic_order

subsection \<open>Default rendering\<close>

text \<open>
  The rendering of a list of nodes when no renderer takes part: text as text, an element
  as an element of the same name over its rendered children, nodes of other kinds
  dropped. \<open>links\<close> says whether the default pass on anchors applies, which is when no
  renderer is registered for \<open>a\<close>. This function is not in the source; the statements
  below compare the walk with it.
\<close>

definition defaultAttribs ::
  "bool \<Rightarrow> ElementType \<Rightarrow> jsstring \<Rightarrow> (jsstring \<times> jsstring) list \<Rightarrow>
   (jsstring \<times> jsstring) list" where
  "defaultAttribs links ty name attribs =
     (if links \<and> ty = Tag \<and> name \<noteq> [] \<and> toLowerCase name = js ''a''
      then linkSafety attribs else attribs)"

fun defaultRender :: "bool \<Rightarrow> DOMNode list \<Rightarrow> ReactNode list" where
  "defaultRender links [] = []"
| "defaultRender links (Text s # rest) = RText s # defaultRender links rest"
| "defaultRender links (Other # rest) = defaultRender links rest"
| "defaultRender links (Element ty name attribs children # rest) =
     RElement name (defaultAttribs links ty name attribs) (defaultRender links children)
     # defaultRender links rest"

text \<open>
  A renderer fails when it throws or returns a value that is neither a string nor an
  element. Its result is inert when it fails or returns a string that does not begin,
  once trimmed, with \<open><\<close>: then \<open>replace\<close> parses nothing and hands back no React
  element.
\<close>

definition fails :: "RendererResult \<Rightarrow> bool" where
  "fails r = (r = Throws \<or> r = ReturnsOther)"

definition inert :: "RendererResult \<Rightarrow> bool" where
  "inert r =
     (case r of
        Throws \<Rightarrow> True
      | ReturnsOther \<Rightarrow> True
      | ReturnsString s \<Rightarrow> \<not> startsWith (trim s) (js ''<'')
      | ReturnsElement rty props existingChildren \<Rightarrow> False)"

text \<open>
  \<open>quiet renderers opts nodes\<close>: every element of \<open>nodes\<close>, at any depth, is rendered
  by default when the walk runs under \<open>opts\<close>: the element is not of type \<open>tag\<close>, or
  it carries the name that \<open>opts\<close> holds back, or no renderer is registered for its tag,
  or the result of the renderer is inert.
\<close>

definition quietAt ::
  "Renderers \<Rightarrow> jsstring \<Rightarrow> (jsstring \<times> jsstring) list \<Rightarrow> DOMNode list \<Rightarrow> bool" where
  "quietAt renderers name attribs children =
     (case map_of renderers (toLowerCase name) of
        None \<Rightarrow> True
      | Some renderer \<Rightarrow>
          inert (renderer (makeContext (toLowerCase name)
            (if toLowerCase name = js ''a'' \<and> map_of renderers (js ''a'') = None
             then linkSafety attribs else attribs) children)))"

fun quiet :: "Renderers \<Rightarrow> Options \<Rightarrow> DOMNode list \<Rightarrow> bool" where
  "quiet renderers opts [] = True"
| "quiet renderers opts (Text s # rest) = quiet renderers opts rest"
| "quiet renderers opts (Other # rest) = quiet renderers opts rest"
| "quiet renderers opts (Element ty name attribs children # rest) =
     ((if ty = Tag \<and> name \<noteq> [] \<and> opts \<noteq> RecursiveOptions name
       then quietAt renderers name attribs children else True) \<and>
      quiet renderers opts children \<and> quiet renderers opts rest)"

text \<open>
  Two registries agree on empty contexts when they hold the same tags in the same order
  and their renderers give the same result on every context whose \<open>innerHTML\<close> and
  \<open>originalHTML\<close> are empty.
\<close>

definition agreeOnEmptyContexts :: "Renderers \<Rightarrow> Renderers \<Rightarrow> bool" where
  "agreeOnEmptyContexts R R' =
     list_all2 (\<lambda>(tag, f) (tag', f'). tag = tag' \<and>
        (\<forall>context. innerHTML context = [] \<and> originalHTML context = [] \<longrightarrow>
           f context = f' context)) R R'"

text \<open>
  A registry of two renderers that return markup: the one for \<open>div\<close> a \<open>div\<close> around
  a \<open>p\<close>, the one for \<open>p\<close> a \<open>div\<close>. \<open>loopParser\<close> gives the trees of these
  two strings, as every parser of markup does; no other string is parsed in the run that
  the registry is used for.
\<close>

definition loopRenderers :: Renderers where
  "loopRenderers =
     [(js ''div'', \<lambda>context. ReturnsString (js ''<div><p></p></div>'')),
      (js ''p'', \<lambda>context. ReturnsString (js ''<div></div>''))]"

definition loopParser :: "jsstring \<Rightarrow> DOMNode list" where
  "loopParser s =
     (if s = js ''<div><p></p></div>''
      then [Element Tag (js ''div'') [] [Element Tag (js ''p'') [] []]]
      else if s = js ''<div></div>'' then [Element Tag (js ''div'') [] []]
      else [])"

subsection \<open>The short cut for an empty registry and the whole pipeline\<close>

text \<open>
  \<open>s.replace(r, f)\<close> for a regular expression with the flag \<open>g\<close> and a function \<open>f\<close>:
  the text between the matches is kept and each match gives way to what \<open>f\<close> makes of
  it. \<open>f\<close> reads the captures from the state in which the match ends.
\<close>

function replace_all :: "regex \<Rightarrow> (mstate \<Rightarrow> jsstring) \<Rightarrow> jsstring \<Rightarrow> jsstring \<Rightarrow> jsstring" where
  "replace_all r f bef s =
     (case search r bef s of
        None \<Rightarrow> s
      | Some (st, e) \<Rightarrow>
          let skipped = take (length s - length (remaining st)) s;
              m = take (length (remaining st) - length (remaining e)) (remaining st)
          in
            if m = []
            then (case remaining e of
                    [] \<Rightarrow> skipped @ f e
                  | c # cs \<Rightarrow> skipped @ f e @ [c] @ replace_all r f (c # consumed e) cs)
            else skipped @ f e @ replace_all r f (consumed e) (remaining e))"
  by pat_completeness auto
termination
proof (relation "measure (\<lambda>(r, f, bef, s). length s)")
  show "wf (measure (\<lambda>(r, f, bef, s). length s))" by simp
next
  fix r and f :: "mstate \<Rightarrow> jsstring" and bef s x2 st e skipped m c cs
  assume a: "search r bef s = Some x2" "(st, e) = x2"
    "m = take (length (remaining st) - length (remaining e)) (remaining st)"
    "m = []" "remaining e = c # cs"
  then have "length (remaining st) \<le> length s" "length (remaining e) \<le> length (remaining st)"
    using search_Some[of r bef s st e] ends_remaining_le[of e r st] by auto
  then show "((r, f, c # consumed e, cs), (r, f, bef, s)) \<in> measure (\<lambda>(r, f, bef, s). length s)"
    using a by simp
next
  fix r and f :: "mstate \<Rightarrow> jsstring" and bef s x2 st e skipped m
  assume a: "search r bef s = Some x2" "(st, e) = x2"
    "m = take (length (remaining st) - length (remaining e)) (remaining st)"
    "m \<noteq> []"
  then have "length (remaining st) \<le> length s" "length (remaining e) \<le> length (remaining st)"
    using search_Some[of r bef s st e] ends_remaining_le[of e r st] by auto
  moreover have "length (remaining e) \<noteq> length (remaining st)" using a by auto
  ultimately show "((r, f, consumed e, remaining e), (r, f, bef, s)) \<in>
      measure (\<lambda>(r, f, bef, s). length s)"
    by simp
qed

declare replace_all.simps [simp del]

text \<open>
  \<open>/<a\s+([^>]*?)href=(["'])([^"']*?)\2([^>]*)>/gi\<close>. The back reference stands for a
  quote, which has one case.
\<close>

definition chr_one_of :: "string \<Rightarrow> jschar \<Rightarrow> bool" where
  "chr_one_of ks c = (c \<in> of_char ` set ks)"

definition anchorPattern :: regex where
  "anchorPattern =
     seqs [lit_i ''<a'', Plus (Chr is_space),
           Group 1 (LazyStar (Chr (chr_none [CHR ''>'']))),
           lit_i ''href='',
           Group 2 (Chr (chr_one_of [CHR 0x22, CHR 0x27])),
           Group 3 (LazyStar (Chr (chr_none [CHR 0x22, CHR 0x27]))),
           Backref 2,
           Group 4 (Star (Chr (chr_none [CHR ''>'']))),
           Chr (chr_eq CHR ''>'')]"

definition capture :: "mstate \<Rightarrow> nat \<Rightarrow> jsstring" where
  "capture e n = (case map_of (captures e) n of Some w \<Rightarrow> w | None \<Rightarrow> [])"

text \<open>The function handed to \<open>replace\<close> in lines 227 to 243.\<close>

definition rewriteAnchor :: "mstate \<Rightarrow> jsstring" where
  \<open>rewriteAnchor e =
     (let beforeHref = capture e 1;
          quote = capture e 2;
          url = capture e 3;
          afterHref = capture e 4;
          normalizedUrl = normalizeUrl url;
          newAttrs = beforeHref @ js ''href='' @ quote @ normalizedUrl @ quote @ afterHref;
          newAttrs = (if \<not> rx_test (lit_i ''target='') newAttrs
                      then newAttrs @ js '' target="_blank"'' else newAttrs);
          newAttrs = (if \<not> rx_test (lit_i ''rel='') newAttrs
                      then newAttrs @ js '' rel="noopener noreferrer"'' else newAttrs)
      in js ''<a '' @ newAttrs @ js ''>'')\<close>

definition shortCircuit :: "jsstring \<Rightarrow> jsstring" where
  "shortCircuit htmlContent = replace_all anchorPattern rewriteAnchor [] htmlContent"

text \<open>
  \<open>processedContent\<close> (lines 198 to 372). The converter of lightweight markup is a
  parameter, \<open>None\<close> where it throws. The parse of the whole content returns the list of
  the rendered nodes, which the source takes when it is an array or a React element; a
  single text node is a string, and the source falls back to the markup.
\<close>

datatype ContentTypeProp = PropHtml | PropMarkdown | PropAuto

datatype Processed = ProcessedHtml jsstring | ProcessedReact "ReactNode list"

definition processedContent ::
  "nat \<Rightarrow> (jsstring \<Rightarrow> jsstring option) \<Rightarrow> (jsstring \<Rightarrow> DOMNode list) \<Rightarrow> Renderers \<Rightarrow>
   ContentTypeProp \<Rightarrow> jsstring \<Rightarrow> Processed option" where
  "processedContent depth marked parser renderers contentType content =
     (let actualContentType =
            (case contentType of
               PropAuto \<Rightarrow> detectContentType content
             | PropHtml \<Rightarrow> Html
             | PropMarkdown \<Rightarrow> Markdown);
          htmlContent =
            (if actualContentType = Markdown
             then (case marked content of Some parsed \<Rightarrow> parsed | None \<Rightarrow> content)
             else content)
      in
        if renderers = [] then Some (ProcessedHtml (shortCircuit htmlContent))
        else
          (case domToReact depth renderers parser TopOptions (parser htmlContent) of
             None \<Rightarrow> None
           | Some reactElements \<Rightarrow>
               (case reactElements of
                  [RText s] \<Rightarrow> Some (ProcessedHtml htmlContent)
                | _ \<Rightarrow> Some (ProcessedReact reactElements))))"

section \<open>Properties\<close>

subsection \<open>Evaluation\<close>

lemmas str_eval = js_def is_space_def is_line_terminator_def trim_def startsWith_def
  lower_char_def toLowerCase_def

lemmas rx_eval = progress_def advance_def set_capture_def rx_test_def seqs_def Plus_def
  chr_eq_def chr_i_def any_char_def is_digit_def is_alpha_i_def is_alnum_i_def lit_def
  lit_i_def ends_Seq ends_Star ends_LazyStar search.simps

lemmas url_eval = rx_http_def is_scheme_char_def rx_scheme_def is_label_char_def rx_label_def
  rx_domain_def normalizeUrl_def

subsection \<open>The matcher on symbolic strings\<close>

lemma search_Bol_later: "bef \<noteq> [] \<Longrightarrow> search (Seq Bol r) bef s = None"
  by (induction s arbitrary: bef) (simp_all add: ends_Seq search.simps)

lemma ends_Seq_Bol:
  "ends (Seq Bol r) \<lparr>consumed = [], remaining = s, captures = cap\<rparr> =
     ends r \<lparr>consumed = [], remaining = s, captures = cap\<rparr>"
  by (simp add: ends_Seq)

lemma rx_test_Bol: "rx_test (Seq Bol r) s \<longleftrightarrow> ends r (start_state s) \<noteq> []"
  by (cases s)
     (auto simp: rx_test_def start_state_def search_Bol_later Let_def ends_Seq_Bol
        search.simps split: list.splits)

lemma ends_Chr_nonempty:
  "ends (Chr p) st \<noteq> [] \<longleftrightarrow> (\<exists>c cs. remaining st = c # cs \<and> p c)"
  by (auto simp: advance_def split: list.splits)

lemma ends_Seq_nonempty:
  "ends (Seq a b) st \<noteq> [] \<longleftrightarrow> (\<exists>st'\<in>set (ends a st). ends b st' \<noteq> [])"
  by (auto simp: ends_Seq)

lemma ends_Empty_fun: "ends Empty = (\<lambda>st. [st])"
  by (rule ext) simp

lemma concat_map_ends_Empty [simp]: "concat (map (ends Empty) xs) = xs"
  by (simp add: ends_Empty_fun)

lemma ends_Seq_Empty [simp]: "ends (Seq a Empty) st = ends a st"
  by (simp add: ends_Empty_fun ends_Seq)

lemma ends_Star_Chr_step:
  "p c \<Longrightarrow> remaining st = c # cs \<Longrightarrow>
   ends (Star (Chr p)) st =
     ends (Star (Chr p)) (st\<lparr>consumed := c # consumed st, remaining := cs\<rparr>) @ [st]"
  by (subst ends_Star) (simp add: advance_def progress_def)

lemma ends_Star_Chr_stop:
  "(case remaining st of [] \<Rightarrow> True | c # _ \<Rightarrow> \<not> p c) \<Longrightarrow> ends (Star (Chr p)) st = [st]"
  by (subst ends_Star) (simp split: list.splits)

lemma ends_Star_Chr_aux:
  "remaining st = cs \<Longrightarrow> remaining ` set (ends (Star (Chr p)) st) =
     (\<lambda>k. drop k cs) ` {..length (takeWhile p cs)}"
proof (induction cs arbitrary: st)
  case Nil
  show ?case using Nil by (simp add: ends_Star_Chr_stop)
next
  case (Cons c cs)
  let ?st' = "st\<lparr>consumed := c # consumed st, remaining := cs\<rparr>"
  show ?case
  proof (cases "p c")
    case True
    have ih: "remaining ` set (ends (Star (Chr p)) ?st') =
        (\<lambda>k. drop k cs) ` {..length (takeWhile p cs)}"
      by (rule Cons.IH) simp
    show ?thesis
      using True Cons.prems
      by (simp add: ends_Star_Chr_step[where p=p and c=c, OF True Cons.prems] ih image_Un atMost_Suc_eq_insert_0 image_image)
  next
    case False
    then show ?thesis using Cons.prems by (simp add: ends_Star_Chr_stop)
  qed
qed

lemmas ends_Star_Chr = ends_Star_Chr_aux [OF refl]


lemma drop_upto_takeWhile:
  "(\<And>d t. Q (d # t) \<Longrightarrow> \<not> p d) \<Longrightarrow>
   (\<exists>k\<le>length (takeWhile p xs). Q (drop k xs)) \<longleftrightarrow> Q (dropWhile p xs)"
proof (induction xs)
  case Nil
  then show ?case by simp
next
  case (Cons x xs)
  show ?case
  proof (cases "p x")
    case True
    then have nq: "\<not> Q (x # xs)" using Cons.prems by blast
    have "(\<exists>k\<le>Suc (length (takeWhile p xs)). Q (drop k (x # xs))) \<longleftrightarrow>
          (\<exists>k\<le>length (takeWhile p xs). Q (drop k xs))"
    proof
      assume "\<exists>k\<le>Suc (length (takeWhile p xs)). Q (drop k (x # xs))"
      then obtain k where k: "k \<le> Suc (length (takeWhile p xs))" "Q (drop k (x # xs))" by blast
      with nq obtain j where "k = Suc j" by (cases k) auto
      with k show "\<exists>k\<le>length (takeWhile p xs). Q (drop k xs)" by auto
    next
      assume "\<exists>k\<le>length (takeWhile p xs). Q (drop k xs)"
      then obtain k where "k \<le> length (takeWhile p xs)" "Q (drop k xs)" by blast
      then show "\<exists>k\<le>Suc (length (takeWhile p xs)). Q (drop k (x # xs))"
        by (intro exI[of _ "Suc k"]) simp
    qed
    with True Cons.IH[OF Cons.prems] show ?thesis by simp
  next
    case False
    then show ?thesis by simp
  qed
qed

lemma ends_Seq_Star_Chr_nonempty:
  assumes "\<And>st. ends b st \<noteq> [] \<longleftrightarrow> Q (remaining st)"
    and "\<And>d t. Q (d # t) \<Longrightarrow> \<not> p d"
  shows "ends (Seq (Star (Chr p)) b) st \<noteq> [] \<longleftrightarrow> Q (dropWhile p (remaining st))"
proof -
  have "ends (Seq (Star (Chr p)) b) st \<noteq> [] \<longleftrightarrow>
        (\<exists>r\<in>remaining ` set (ends (Star (Chr p)) st). Q r)"
    by (simp add: assms(1) ends_Seq_nonempty)
  also have "\<dots> \<longleftrightarrow> (\<exists>k\<le>length (takeWhile p (remaining st)). Q (drop k (remaining st)))"
    unfolding ends_Star_Chr by auto
  also have "\<dots> \<longleftrightarrow> Q (dropWhile p (remaining st))"
    by (rule drop_upto_takeWhile) (rule assms(2))
  finally show ?thesis .
qed

lemma rx_scheme_iff: "rx_test rx_scheme s \<longleftrightarrow> has_scheme s"
proof -
  have colon: "\<And>st. ends (Seq (Chr (chr_eq CHR '':'')) Empty) st \<noteq> [] \<longleftrightarrow>
      (case remaining st of [] \<Rightarrow> False | c # _ \<Rightarrow> chr_eq CHR '':'' c)"
    by (auto simp: advance_def split: list.splits)
  have tail: "\<And>st. ends (Seq (Star (Chr is_scheme_char)) (Seq (Chr (chr_eq CHR '':'')) Empty)) st \<noteq> [] \<longleftrightarrow>
      (case dropWhile is_scheme_char (remaining st) of [] \<Rightarrow> False | c # _ \<Rightarrow> chr_eq CHR '':'' c)"
    by (rule ends_Seq_Star_Chr_nonempty[OF colon])
       (simp add: is_scheme_char_def chr_eq_def is_alnum_i_def is_alpha_i_def is_digit_def)
  have "rx_test rx_scheme s \<longleftrightarrow>
     (\<exists>st'\<in>set (ends (Chr is_alpha_i) (start_state s)).
        ends (Seq (Star (Chr is_scheme_char)) (Seq (Chr (chr_eq CHR '':'')) Empty)) st' \<noteq> [])"
    unfolding rx_scheme_def seqs_def by (simp only: foldr.simps o_apply id_apply rx_test_Bol ends_Seq_nonempty)
  also have "\<dots> \<longleftrightarrow> has_scheme s"
    unfolding tail start_state_def has_scheme_def
    by (cases s) (simp_all add: advance_def)
  finally show ?thesis .
qed


lemma ends_Star_nonempty: "ends (Star a) st \<noteq> []"
  by (subst ends_Star) simp

lemma ends_Opt_nonempty: "ends (Opt a) st \<noteq> []"
  by simp

lemma ends_Seq_Chr_Empty_remaining:
  "remaining ` set (ends (Seq (Chr p) Empty) st) =
     (case remaining st of [] \<Rightarrow> {} | e # t \<Rightarrow> if p e then {t} else {})"
  by (simp add: advance_def split: list.splits)

lemma ends_label_body_remaining:
  "remaining ` set (ends (Seq (Star (Chr p)) (Seq (Chr q) Empty)) st) =
     {t. \<exists>k\<le>length (takeWhile p (remaining st)). \<exists>e. drop k (remaining st) = e # t \<and> q e}"
proof -
  have "remaining ` set (ends (Seq (Star (Chr p)) (Seq (Chr q) Empty)) st) =
      (\<Union>st'\<in>set (ends (Star (Chr p)) st). remaining ` set (ends (Seq (Chr q) Empty) st'))"
    by (simp add: ends_Seq[of "Star (Chr p)"] image_UN)
  also have "\<dots> = (\<Union>r\<in>remaining ` set (ends (Star (Chr p)) st).
      (case r of [] \<Rightarrow> {} | e # t \<Rightarrow> if q e then {t} else {}))"
    unfolding ends_Seq_Chr_Empty_remaining by simp
  also have "\<dots> = {t. \<exists>k\<le>length (takeWhile p (remaining st)). \<exists>e. drop k (remaining st) = e # t \<and> q e}"
    unfolding ends_Star_Chr by (auto split: list.splits if_splits)
  finally show ?thesis .
qed


lemma ends_rx_label_remaining:
  "remaining ` set (ends rx_label st) =
     (case remaining st of
        [] \<Rightarrow> {}
      | a # rest \<Rightarrow>
          if is_alnum_i a
          then insert rest
            {t. \<exists>k\<le>length (takeWhile is_label_char rest). \<exists>e. drop k rest = e # t \<and> is_alnum_i e}
          else {})"
proof (cases "remaining st")
  case Nil
  then show ?thesis by (simp add: rx_label_def seqs_def ends_Seq)
next
  case (Cons a rest)
  let ?X = "Seq (Star (Chr is_label_char)) (Seq (Chr is_alnum_i) Empty)"
  let ?st1 = "st\<lparr>consumed := a # consumed st, remaining := rest\<rparr>"
  let ?B = "{t. \<exists>k\<le>length (takeWhile is_label_char rest). \<exists>e. drop k rest = e # t \<and> is_alnum_i e}"
  show ?thesis
  proof (cases "is_alnum_i a")
    case False
    then show ?thesis using Cons by (simp add: rx_label_def seqs_def ends_Seq)
  next
    case True
    have X: "remaining ` set (ends ?X ?st1) = ?B"
      by (simp add: ends_label_body_remaining)
    have prog: "\<And>x. x \<in> set (ends ?X ?st1) \<Longrightarrow> progress ?st1 x"
    proof -
      fix x assume "x \<in> set (ends ?X ?st1)"
      then have "remaining x \<in> ?B" using X by blast
      then obtain k e where "drop k rest = e # remaining x" by blast
      then have "length (drop k rest) = Suc (length (remaining x))" by simp
      then show "progress ?st1 x" by (simp add: progress_def)
    qed
    have "ends rx_label st = filter (progress ?st1) (ends ?X ?st1) @ [?st1]"
      using Cons True by (simp add: rx_label_def seqs_def ends_Seq advance_def)
    also have "filter (progress ?st1) (ends ?X ?st1) = ends ?X ?st1"
      using prog by (simp add: filter_id_conv)
    finally have "remaining ` set (ends rx_label st) = insert rest ?B"
      using X by (simp add: image_Un)
    then show ?thesis using Cons True by simp
  qed
qed

lemma label_then_tail:
  assumes lc: "\<And>e. q e \<Longrightarrow> p e" and T: "\<And>t. T t \<Longrightarrow> \<exists>d t'. t = d # t' \<and> \<not> p d"
  shows "((q a \<and> T rest) \<or> (\<exists>k\<le>length (takeWhile p rest). \<exists>e t. drop k rest = e # t \<and> q e \<and> T t))
     \<longleftrightarrow> (q (last (a # takeWhile p rest)) \<and> T (dropWhile p rest))"
proof (induction rest arbitrary: a)
  case Nil
  show ?case using T[of "[]"] by auto
next
  case (Cons x xs)
  show ?case
  proof (cases "p x")
    case False
    then have "\<not> q x" using lc by blast
    then show ?thesis using False by simp
  next
    case True
    then have nT: "\<not> T (x # xs)" using T[of "x # xs"] by auto
    have "(\<exists>k\<le>Suc (length (takeWhile p xs)). \<exists>e t. drop k (x # xs) = e # t \<and> q e \<and> T t) \<longleftrightarrow>
          ((q x \<and> T xs) \<or> (\<exists>k\<le>length (takeWhile p xs). \<exists>e t. drop k xs = e # t \<and> q e \<and> T t))"
      (is "?L \<longleftrightarrow> ?R")
    proof
      assume ?L
      then obtain k e t where k: "k \<le> Suc (length (takeWhile p xs))"
        "drop k (x # xs) = e # t" "q e" "T t" by blast
      show ?R
      proof (cases k)
        case 0
        then show ?thesis using k by simp
      next
        case (Suc j)
        then show ?thesis using k by auto
      qed
    next
      assume ?R
      then show ?L
      proof
        assume "q x \<and> T xs"
        then show ?L by (intro exI[of _ 0]) simp
      next
        assume "\<exists>k\<le>length (takeWhile p xs). \<exists>e t. drop k xs = e # t \<and> q e \<and> T t"
        then obtain k e t where "k \<le> length (takeWhile p xs)" "drop k xs = e # t" "q e" "T t"
          by blast
        then show ?L by (intro exI[of _ "Suc k"]) simp
      qed
    qed
    then show ?thesis using True nT Cons.IH[of x] by simp
  qed
qed

lemma ends_dot_label_nonempty:
  "ends (Seq (Chr (chr_eq CHR ''.'')) (Seq rx_label Empty)) st \<noteq> [] \<longleftrightarrow>
     dot_then_alnum (remaining st)"
proof -
  have lab: "\<And>st'. ends rx_label st' \<noteq> [] \<longleftrightarrow>
      (case remaining st' of [] \<Rightarrow> False | e # _ \<Rightarrow> is_alnum_i e)"
  proof -
    fix st'
    have "ends rx_label st' \<noteq> [] \<longleftrightarrow> remaining ` set (ends rx_label st') \<noteq> {}" by simp
    then show "ends rx_label st' \<noteq> [] \<longleftrightarrow>
      (case remaining st' of [] \<Rightarrow> False | e # _ \<Rightarrow> is_alnum_i e)"
      unfolding ends_rx_label_remaining by (simp split: list.splits)
  qed
  show ?thesis
    by (cases "remaining st")
       (auto simp: ends_Seq_nonempty lab advance_def dot_then_alnum_def split: list.splits)
qed

lemma ends_Plus_nonempty: "ends (Seq (Plus a) Empty) st \<noteq> [] \<longleftrightarrow> ends a st \<noteq> []"
  by (simp add: Plus_def ends_Seq_nonempty ends_Star_nonempty ex_in_conv)

lemma rx_domain_iff: "rx_test rx_domain s \<longleftrightarrow> starts_with_domain s"
proof -
  let ?G = "Seq (Chr (chr_eq CHR ''.'')) (Seq rx_label Empty)"
  have plus: "\<And>st. ends (Seq (Plus ?G) Empty) st \<noteq> [] \<longleftrightarrow> dot_then_alnum (remaining st)"
    by (simp only: ends_Plus_nonempty ends_dot_label_nonempty)
  have "rx_test rx_domain s \<longleftrightarrow>
      ends (Seq rx_label (Seq (Plus ?G) Empty)) (start_state s) \<noteq> []"
    unfolding rx_domain_def seqs_def
    by (simp only: foldr.simps o_apply id_apply rx_test_Bol)
  also have "\<dots> \<longleftrightarrow>
      (\<exists>st'\<in>set (ends rx_label (start_state s)). ends (Seq (Plus ?G) Empty) st' \<noteq> [])"
    by (rule ends_Seq_nonempty)
  also have "\<dots> \<longleftrightarrow>
      (\<exists>r\<in>remaining ` set (ends rx_label (start_state s)). dot_then_alnum r)"
    by (simp only: plus bex_simps(7))
  also have "\<dots> \<longleftrightarrow> starts_with_domain s"
  proof (cases s)
    case Nil
    then show ?thesis
      by (simp add: ends_rx_label_remaining start_state_def starts_with_domain_def)
  next
    case (Cons a rest)
    have tail: "((is_alnum_i a \<and> dot_then_alnum rest) \<or>
        (\<exists>k\<le>length (takeWhile is_label_char rest).
           \<exists>e t. drop k rest = e # t \<and> is_alnum_i e \<and> dot_then_alnum t)) \<longleftrightarrow>
        (is_alnum_i (last (a # takeWhile is_label_char rest)) \<and>
         dot_then_alnum (dropWhile is_label_char rest))"
      by (rule label_then_tail)
         (auto simp: is_label_char_def dot_then_alnum_def chr_eq_def is_alnum_i_def
            is_alpha_i_def is_digit_def split: list.splits)
    show ?thesis
      unfolding ends_rx_label_remaining start_state_def starts_with_domain_def Cons
      using tail by auto
  qed
  finally show ?thesis .
qed

lemma concat_map_concat_map:
  "concat (map f (concat (map g xs))) = concat (map (\<lambda>x. concat (map f (g x))) xs)"
  by (induction xs) simp_all

lemma ends_Seq_fun: "ends (Seq b c) = (\<lambda>x. concat (map (ends c) (ends b x)))"
  by (rule ext) (simp add: ends_Seq)

lemma ends_Seq_Chr_nonempty:
  "ends (Seq (Chr p) r) st \<noteq> [] \<longleftrightarrow>
     (case remaining st of
        [] \<Rightarrow> False
      | c # cs \<Rightarrow> p c \<and> ends r (st\<lparr>consumed := c # consumed st, remaining := cs\<rparr>) \<noteq> [])"
  by (simp add: ends_Seq advance_def split: list.splits)

lemma ends_Seq_Opt_Chr_nonempty:
  "ends (Seq (Opt (Chr p)) r) st \<noteq> [] \<longleftrightarrow>
     (ends (Seq (Chr p) r) st \<noteq> [] \<or> ends r st \<noteq> [])"
proof (cases "remaining st")
  case Nil
  then show ?thesis by (simp add: ends_Seq)
next
  case (Cons c cs)
  then show ?thesis by (cases "p c") (simp_all add: ends_Seq advance_def progress_def)
qed

lemma chr_i_letter:
  "chr_i k c \<Longrightarrow> is_alpha_i (of_char k) \<Longrightarrow> is_alpha_i c"
  by (auto simp: chr_i_def lower_char_def is_alpha_i_def split: if_splits)

lemma chr_i_other:
  "chr_i k c \<Longrightarrow> \<not> is_alpha_i (of_char k) \<Longrightarrow> c = of_char k"
  by (auto simp: chr_i_def lower_char_def is_alpha_i_def split: if_splits)

lemma is_alpha_scheme_char: "is_alpha_i c \<Longrightarrow> is_scheme_char c"
  by (simp add: is_scheme_char_def is_alnum_i_def)

lemma rx_http_has_scheme:
  assumes "rx_test rx_http s"
  shows "has_scheme s"
proof -
  let ?tail = "Seq (Chr (chr_i CHR '':'')) (Seq (Chr (chr_i CHR ''/'')) (Seq (Chr (chr_i CHR ''/'')) Empty))"
  have alpha: "is_alpha_i (of_char CHR ''h'')" "is_alpha_i (of_char CHR ''t'')"
    "is_alpha_i (of_char CHR ''p'')" "is_alpha_i (of_char CHR ''s'')"
    by (simp_all add: is_alpha_i_def)
  have colon: "\<And>c. chr_i CHR '':'' c \<Longrightarrow> c = of_char CHR '':''"
    by (rule chr_i_other) (simp_all add: is_alpha_i_def)
  have nsc: "\<not> is_scheme_char (of_char CHR '':'')"
    by (simp add: is_scheme_char_def chr_eq_def is_alnum_i_def is_alpha_i_def is_digit_def)
  have "ends (Seq (Chr (chr_i CHR ''h'')) (Seq (Chr (chr_i CHR ''t'')) (Seq (Chr (chr_i CHR ''t''))
      (Seq (Chr (chr_i CHR ''p'')) (Seq (Opt (Chr (chr_i CHR ''s''))) ?tail))))) (start_state s) \<noteq> []"
    using assms unfolding rx_http_def
    by (simp add: seqs_def lit_i_def rx_test_Bol ends_Seq_fun ends_Empty_fun
          concat_map_concat_map)
  then obtain c1 c2 c3 c4 rest where s: "s = c1 # c2 # c3 # c4 # rest"
    and c: "chr_i CHR ''h'' c1" "chr_i CHR ''t'' c2" "chr_i CHR ''t'' c3" "chr_i CHR ''p'' c4"
    and t: "(\<exists>c5 r. rest = c5 # r \<and> chr_i CHR ''s'' c5 \<and> (\<exists>c6 r'. r = c6 # r' \<and> chr_i CHR '':'' c6))
         \<or> (\<exists>c6 r'. rest = c6 # r' \<and> chr_i CHR '':'' c6)"
    by (simp only: ends_Seq_Chr_nonempty ends_Seq_Opt_Chr_nonempty start_state_def)
       (auto split: list.splits)
  have a: "is_alpha_i c1" "is_scheme_char c2" "is_scheme_char c3" "is_scheme_char c4"
    by (rule chr_i_letter[OF c(1) alpha(1)])
       (rule is_alpha_scheme_char[OF chr_i_letter[OF c(2) alpha(2)]]
             is_alpha_scheme_char[OF chr_i_letter[OF c(3) alpha(2)]]
             is_alpha_scheme_char[OF chr_i_letter[OF c(4) alpha(3)]])+
  from t show ?thesis
  proof
    assume "\<exists>c5 r. rest = c5 # r \<and> chr_i CHR ''s'' c5 \<and> (\<exists>c6 r'. r = c6 # r' \<and> chr_i CHR '':'' c6)"
    then obtain c5 c6 r' where r: "rest = c5 # c6 # r'" "chr_i CHR ''s'' c5" "chr_i CHR '':'' c6"
      by blast
    then have "is_scheme_char c5"
      by (intro is_alpha_scheme_char chr_i_letter[OF _ alpha(4)])
    then show ?thesis using a r colon[of c6] nsc by (simp add: has_scheme_def s chr_eq_def)
  next
    assume "\<exists>c6 r'. rest = c6 # r' \<and> chr_i CHR '':'' c6"
    then obtain c6 r' where r: "rest = c6 # r'" "chr_i CHR '':'' c6" by blast
    then show ?thesis using a colon[of c6] nsc by (simp add: has_scheme_def s chr_eq_def)
  qed
qed


lemma labels_Cons: "\<exists>ls. labels s = takeWhile not_dot s # ls"
  by (subst labels.simps) (simp split: list.splits)

lemma bare_domain_starts_with_domain:
  assumes "bare_domain d"
  shows "starts_with_domain (d @ rest)"
proof -
  from assms have len: "2 \<le> length (labels d)" and all: "list_all is_label (labels d)"
    by (simp_all add: bare_domain_def)
  obtain x r where dw: "dropWhile not_dot d = x # r"
    using len by (subst (asm) labels.simps) (simp split: list.splits)
  then have x: "chr_eq CHR ''.'' x"
    using hd_dropWhile[of not_dot d] by (simp add: not_dot_def)
  have lab: "labels d = takeWhile not_dot d # labels r"
    using dw by (subst labels.simps) simp
  obtain ls where ls: "labels r = takeWhile not_dot r # ls"
    using labels_Cons by blast
  have l1: "is_label (takeWhile not_dot d)" and l2: "is_label (takeWhile not_dot r)"
    using all lab ls by simp_all
  obtain a m where am: "takeWhile not_dot d = a # m"
    using l1 by (cases "takeWhile not_dot d") (simp_all add: is_label_def)
  obtain e r' where r: "r = e # r'" and e: "is_alnum_i e"
    using l2 by (cases r) (auto simp: is_label_def split: if_splits)
  have d: "d = a # m @ x # e # r'"
    using takeWhile_dropWhile_id[of not_dot d] am dw r by simp
  have a: "is_alnum_i a" and m: "\<forall>c\<in>set m. is_label_char c" and la: "is_alnum_i (last (a # m))"
    using l1 am by (simp_all add: is_label_def list_all_iff)
  have nx: "\<not> is_label_char x"
    using x by (simp add: is_label_char_def chr_eq_def is_alnum_i_def is_alpha_i_def is_digit_def)
  have tw: "takeWhile is_label_char (m @ x # e # r' @ rest) = m"
    using m nx by simp
  have dr: "dropWhile is_label_char (m @ x # e # r' @ rest) = x # e # r' @ rest"
    using m nx by simp
  show ?thesis
    unfolding d starts_with_domain_def using a la x e tw dr
    by (simp add: dot_then_alnum_def split: if_splits)
qed


lemma trim_Nil: "trim [] = []"
  by (simp add: trim_def)

lemma starts_with_domain_first:
  "starts_with_domain s \<Longrightarrow> s \<noteq> [] \<and> \<not> startsWith s (js ''/'') \<and> \<not> startsWith s (js ''#'')"
  by (cases s)
     (auto simp: starts_with_domain_def startsWith_def js_def is_alnum_i_def is_alpha_i_def
        is_digit_def)


lemma normalizeUrl_prefixed:
  assumes "starts_with_domain (trim url)" "\<not> has_scheme (trim url)"
  shows "normalizeUrl url = js ''https://'' @ trim url"
proof -
  have "url \<noteq> []" using assms(1) by (auto simp: trim_Nil starts_with_domain_def)
  moreover have "\<not> rx_test rx_http (trim url)" using assms(2) rx_http_has_scheme by blast
  ultimately show ?thesis
    using assms starts_with_domain_first[OF assms(1)]
    by (simp add: normalizeUrl_def Let_def rx_scheme_iff rx_domain_iff)
qed

subsection \<open>Claims about the URL normalizer\<close>

lemmas shape_eval = has_scheme_def starts_with_domain_def dot_then_alnum_def is_label_def
  not_dot_def bare_domain_def labels.simps




text \<open>
  Claim C9, as amended. The bare-domain test looks at the beginning of the trimmed input
  only. For every input whose trimmed form begins with a bare-domain shape and has no
  explicit scheme (the scheme test comes first in \<open>normalizeUrl\<close>), the result is
  \<open>https://\<close> followed by the whole trimmed input, whatever follows the domain: every
  string that extends a bare domain begins with the shape, and \<open>foo.bar baz\<close> becomes
  \<open>https://foo.bar baz\<close>.
\<close>

theorem C9_domain_test_is_prefix_match:
  "(\<forall>url. starts_with_domain (trim url) \<and> \<not> has_scheme (trim url)
      \<longrightarrow> normalizeUrl url = js ''https://'' @ trim url) \<and>
   (\<forall>d rest. bare_domain d \<longrightarrow> starts_with_domain (d @ rest)) \<and>
   (\<forall>s. rx_test rx_domain s = starts_with_domain s) \<and>
   normalizeUrl (js ''foo.bar baz'') = js ''https://foo.bar baz''"
proof (intro conjI allI impI)
  fix url
  assume "starts_with_domain (trim url) \<and> \<not> has_scheme (trim url)"
  then show "normalizeUrl url = js ''https://'' @ trim url"
    by (simp add: normalizeUrl_prefixed)
next
  fix d rest
  assume "bare_domain d"
  then show "starts_with_domain (d @ rest)" by (rule bare_domain_starts_with_domain)
next
  fix s
  show "rx_test rx_domain s = starts_with_domain s" by (rule rx_domain_iff)
next
  show "normalizeUrl (js ''foo.bar baz'') = js ''https://foo.bar baz''"
    by (simp add: str_eval rx_eval url_eval)
qed

theorem C9_witness:
  "bare_domain (js ''foo.bar'') \<and>
   starts_with_domain (js ''foo.bar'' @ js '' baz'') \<and>
   \<not> has_scheme (trim (js ''foo.bar baz'')) \<and>
   normalizeUrl (js ''foo.bar baz'') = js ''https://'' @ trim (js ''foo.bar baz'')"
proof -
  have b: "bare_domain (js ''foo.bar'')"
    by (simp add: shape_eval str_eval chr_eq_def is_label_char_def is_alnum_i_def
          is_alpha_i_def is_digit_def)
  have n: "\<not> has_scheme (trim (js ''foo.bar baz''))"
    by (simp add: shape_eval str_eval chr_eq_def is_scheme_char_def is_alnum_i_def
          is_alpha_i_def is_digit_def)
  have s: "starts_with_domain (js ''foo.bar'' @ js '' baz'')"
    using C9_domain_test_is_prefix_match b by blast
  have t: "trim (js ''foo.bar baz'') = js ''foo.bar'' @ js '' baz''"
    by (simp add: str_eval)
  have "normalizeUrl (js ''foo.bar baz'') = js ''https://'' @ trim (js ''foo.bar baz'')"
    using C9_domain_test_is_prefix_match s n unfolding t[symmetric] by blast
  then show ?thesis using b s n by blast
qed

text \<open>
  The claim as first stated, for every input that begins with a domain shape, fails
  where a colon follows the domain: \<open>foo.bar:baz\<close> begins with the bare domain \<open>foo.bar\<close>,
  passes for a scheme and is returned as it is.
\<close>

theorem C9_counterexample:
  "bare_domain (js ''foo.bar'') \<and>
   starts_with_domain (trim (js ''foo.bar:baz'')) \<and>
   normalizeUrl (js ''foo.bar:baz'') = js ''foo.bar:baz'' \<and>
   normalizeUrl (js ''foo.bar:baz'') \<noteq> js ''https://'' @ trim (js ''foo.bar:baz'')"
  by (simp add: shape_eval str_eval rx_eval url_eval)

subsection \<open>Lemmas about the image node\<close>

lemmas img_eval = truthy_def js_or_def rx_match_group_def is_url_char_def rx_url_part_def
  contaminated_def cleanOriginalSrc_def copyStringAttributes_def setIfPresent_def renderHTML_def
  displaySrc_def









lemma map_of_foldl_update:
  "k \<notin> fst ` set xs \<Longrightarrow>
   map_of (foldl (\<lambda>attrs (key, v). case v of Some x \<Rightarrow> AList.update key x attrs | None \<Rightarrow> attrs)
     acc xs) k = map_of acc k"
  by (induction xs arbitrary: acc) (auto simp: update_conv' split: option.splits)

lemma map_of_copyStringAttributes:
  "k \<notin> fst ` set rest \<Longrightarrow> map_of (copyStringAttributes rest) k = None"
  by (simp add: copyStringAttributes_def map_of_foldl_update)

lemma map_of_setIfPresent:
  "map_of (setIfPresent key v attrs) k =
     (if k = key \<and> truthy v then map_option trim v else map_of attrs k)"
  by (auto simp: setIfPresent_def truthy_def update_conv' split: option.splits)

lemma js_key_distinct:
  "js ''src'' \<noteq> js ''alt''" "js ''src'' \<noteq> js ''title''" "js ''alt'' \<noteq> js ''title''"
  "js ''alt'' \<noteq> js ''src''" "js ''title'' \<noteq> js ''src''" "js ''title'' \<noteq> js ''alt''"
  by (simp_all add: js_def)

lemma renderHTML_lookup:
  "map_of (snd (renderHTML H node)) (js ''src'') =
     (let cleaned = cleanOriginalSrc (js_or (originalSrc node) (src node))
      in if truthy cleaned then map_option trim cleaned else None)"
  "map_of (snd (renderHTML H node)) (js ''alt'') =
     (if truthy (alt node) then map_option trim (alt node) else None)"
  "map_of (snd (renderHTML H node)) (js ''title'') =
     (if truthy (title node) then map_option trim (title node) else None)"
  by (auto simp: renderHTML_def Let_def map_of_setIfPresent js_key_distinct
        intro!: map_of_copyStringAttributes)

lemma cleanOriginalSrc_not_truthy: "\<not> truthy v \<Longrightarrow> cleanOriginalSrc v = v"
  by (auto simp: truthy_def cleanOriginalSrc_def split: option.splits)






subsection \<open>Claims about the image node\<close>





text \<open>
  Claim C10. For every image node, serialization leaves out \<open>alt\<close> and \<open>title\<close> when
  the stored value is null or the empty string, emits them trimmed otherwise, and leaves
  out \<open>src\<close> when the canonical URL (\<open>originalSrc\<close>, or \<open>src\<close> in its place) is null or
  empty, emitting the cleaned URL trimmed otherwise. A node whose \<open>alt\<close> is the empty
  string is serialized without \<open>alt\<close>, also when \<open>HTMLAttributes\<close> carries one.
\<close>

theorem C10_omitted_attributes:
  "(\<forall>H node. alt node = None \<or> alt node = Some [] \<longrightarrow>
      map_of (snd (renderHTML H node)) (js ''alt'') = None) \<and>
   (\<forall>H node. title node = None \<or> title node = Some [] \<longrightarrow>
      map_of (snd (renderHTML H node)) (js ''title'') = None) \<and>
   (\<forall>H node a. alt node = Some a \<and> a \<noteq> [] \<longrightarrow>
      map_of (snd (renderHTML H node)) (js ''alt'') = Some (trim a)) \<and>
   (\<forall>H node a. title node = Some a \<and> a \<noteq> [] \<longrightarrow>
      map_of (snd (renderHTML H node)) (js ''title'') = Some (trim a)) \<and>
   (\<forall>H node. js_or (originalSrc node) (src node) = None \<or>
        js_or (originalSrc node) (src node) = Some [] \<longrightarrow>
      map_of (snd (renderHTML H node)) (js ''src'') = None) \<and>
   (\<forall>H node s. cleanOriginalSrc (js_or (originalSrc node) (src node)) = Some s \<and> s \<noteq> [] \<longrightarrow>
      map_of (snd (renderHTML H node)) (js ''src'') = Some (trim s)) \<and>
   map_of (snd (renderHTML [(js ''alt'', Some [])]
     \<lparr>originalSrc = Some (js ''a.png''), src = Some (js ''a.png''), alt = Some [], title = None\<rparr>))
     (js ''alt'') = None"
proof (intro conjI allI impI)
  fix H and node :: ImageAttrs
  assume "alt node = None \<or> alt node = Some []"
  then show "map_of (snd (renderHTML H node)) (js ''alt'') = None"
    by (auto simp: renderHTML_lookup truthy_def)
next
  fix H and node :: ImageAttrs
  assume "title node = None \<or> title node = Some []"
  then show "map_of (snd (renderHTML H node)) (js ''title'') = None"
    by (auto simp: renderHTML_lookup truthy_def)
next
  fix H and node :: ImageAttrs and a
  assume "alt node = Some a \<and> a \<noteq> []"
  then show "map_of (snd (renderHTML H node)) (js ''alt'') = Some (trim a)"
    by (simp add: renderHTML_lookup truthy_def)
next
  fix H and node :: ImageAttrs and a
  assume "title node = Some a \<and> a \<noteq> []"
  then show "map_of (snd (renderHTML H node)) (js ''title'') = Some (trim a)"
    by (simp add: renderHTML_lookup truthy_def)
next
  fix H and node :: ImageAttrs
  assume "js_or (originalSrc node) (src node) = None \<or>
        js_or (originalSrc node) (src node) = Some []"
  then have "\<not> truthy (js_or (originalSrc node) (src node))"
    by (auto simp: truthy_def)
  then show "map_of (snd (renderHTML H node)) (js ''src'') = None"
    by (simp add: renderHTML_lookup Let_def cleanOriginalSrc_not_truthy)
next
  fix H and node :: ImageAttrs and s
  assume "cleanOriginalSrc (js_or (originalSrc node) (src node)) = Some s \<and> s \<noteq> []"
  then show "map_of (snd (renderHTML H node)) (js ''src'') = Some (trim s)"
    by (simp add: renderHTML_lookup Let_def truthy_def)
next
  show "map_of (snd (renderHTML [(js ''alt'', Some [])]
     \<lparr>originalSrc = Some (js ''a.png''), src = Some (js ''a.png''), alt = Some [], title = None\<rparr>))
     (js ''alt'') = None"
    by (simp add: renderHTML_lookup truthy_def)
qed

theorem C10_witness:
  "map_of (snd (renderHTML []
      \<lparr>originalSrc = None, src = Some [], alt = Some [], title = None\<rparr>)) (js ''alt'') = None \<and>
   map_of (snd (renderHTML []
      \<lparr>originalSrc = None, src = Some [], alt = Some [], title = None\<rparr>)) (js ''title'') = None \<and>
   map_of (snd (renderHTML []
      \<lparr>originalSrc = None, src = Some [], alt = Some [], title = None\<rparr>)) (js ''src'') = None \<and>
   map_of (snd (renderHTML []
      \<lparr>originalSrc = Some (js '' a.png''), src = None, alt = Some (js '' cat ''),
       title = Some (js ''t '')\<rparr>)) (js ''alt'') = Some (js ''cat'') \<and>
   map_of (snd (renderHTML []
      \<lparr>originalSrc = Some (js '' a.png''), src = None, alt = Some (js '' cat ''),
       title = Some (js ''t '')\<rparr>)) (js ''title'') = Some (js ''t'') \<and>
   map_of (snd (renderHTML []
      \<lparr>originalSrc = Some (js '' a.png''), src = None, alt = Some (js '' cat ''),
       title = Some (js ''t '')\<rparr>)) (js ''src'') = Some (js ''a.png'')"
proof -
  let ?n1 = "\<lparr>originalSrc = None, src = Some [], alt = Some [], title = None\<rparr>"
  let ?n2 = "\<lparr>originalSrc = Some (js '' a.png''), src = None, alt = Some (js '' cat ''),
       title = Some (js ''t '')\<rparr>"
  note C = C10_omitted_attributes
  have h1: "alt ?n1 = None \<or> alt ?n1 = Some []" by simp
  have h2: "title ?n1 = None \<or> title ?n1 = Some []" by simp
  have h3: "js_or (originalSrc ?n1) (src ?n1) = None \<or> js_or (originalSrc ?n1) (src ?n1) = Some []"
    by (simp add: js_or_def truthy_def)
  have h4: "alt ?n2 = Some (js '' cat '') \<and> js '' cat '' \<noteq> []" by (simp add: js_def)
  have h5: "title ?n2 = Some (js ''t '') \<and> js ''t '' \<noteq> []" by (simp add: js_def)
  have h6: "cleanOriginalSrc (js_or (originalSrc ?n2) (src ?n2)) = Some (js ''a.png'') \<and>
      js ''a.png'' \<noteq> []"
    by (simp add: img_eval str_eval Let_def)
  have t: "trim (js '' cat '') = js ''cat''" "trim (js ''t '') = js ''t''"
    "trim (js ''a.png'') = js ''a.png''"
    by (simp_all add: str_eval)
  have "map_of (snd (renderHTML [] ?n1)) (js ''alt'') = None" using C h1 by blast
  moreover have "map_of (snd (renderHTML [] ?n1)) (js ''title'') = None" using C h2 by blast
  moreover have "map_of (snd (renderHTML [] ?n1)) (js ''src'') = None" using C h3 by blast
  moreover have "map_of (snd (renderHTML [] ?n2)) (js ''alt'') = Some (trim (js '' cat ''))"
    using C h4 by blast
  moreover have "map_of (snd (renderHTML [] ?n2)) (js ''title'') = Some (trim (js ''t ''))"
    using C h5 by blast
  moreover have "map_of (snd (renderHTML [] ?n2)) (js ''src'') = Some (trim (js ''a.png''))"
    using C h6 by blast
  ultimately show ?thesis unfolding t by blast
qed

subsection \<open>Lemmas about the classifier\<close>

lemmas detect_eval = htmlTagPattern_def closingTagPattern_def dot_def chr_none_def LazyPlus_def
  markdownPatterns_def markdownScore_def detectContentType_def tagToken_def closingTagToken_def
  match_all.simps

lemma no_gt_ahead_append: "no_gt_ahead l1 \<Longrightarrow> no_gt_ahead l2 \<Longrightarrow> no_gt_ahead (l1 @ l2)"
  by (cases l1) (simp_all add: no_gt_ahead_def)

lemma no_gt_ahead_concat: "(\<And>x. x \<in> set xs \<Longrightarrow> no_gt_ahead (f x)) \<Longrightarrow> no_gt_ahead (concat (map f xs))"
  by (induction xs) (simp_all add: no_gt_ahead_append, simp add: no_gt_ahead_def)

lemma no_gt_ahead_Seq: "(\<And>x. no_gt_ahead (ends b x)) \<Longrightarrow> no_gt_ahead (ends (Seq a b) st)"
  by (simp add: ends_Seq no_gt_ahead_concat)

lemma ends_Star_any_step:
  "remaining st = c # cs \<Longrightarrow>
   ends (Star (Chr any_char)) st =
     ends (Star (Chr any_char)) (st\<lparr>consumed := c # consumed st, remaining := cs\<rparr>) @ [st]"
  by (rule ends_Star_Chr_step) (simp_all add: any_char_def)

lemma ends_greedy_gt_aux:
  "remaining st = cs \<Longrightarrow>
   (ends (Seq (Star (Chr any_char)) (Seq (Chr (chr_eq CHR ''>'')) Empty)) st = [] \<longleftrightarrow>
      of_char CHR ''>'' \<notin> set cs) \<and>
   no_gt_ahead (ends (Seq (Star (Chr any_char)) (Seq (Chr (chr_eq CHR ''>'')) Empty)) st)"
proof (induction cs arbitrary: st)
  case Nil
  then show ?case
    by (simp add: ends_Seq[of "Star (Chr any_char)"] ends_Star_Chr_stop no_gt_ahead_def)
next
  case (Cons c cs)
  let ?T = "Seq (Star (Chr any_char)) (Seq (Chr (chr_eq CHR ''>'')) Empty)"
  let ?st' = "st\<lparr>consumed := c # consumed st, remaining := cs\<rparr>"
  have ih: "(ends ?T ?st' = [] \<longleftrightarrow> of_char CHR ''>'' \<notin> set cs) \<and> no_gt_ahead (ends ?T ?st')"
    by (rule Cons.IH) simp
  have e: "ends ?T st = ends ?T ?st' @ (if chr_eq CHR ''>'' c then [?st'] else [])"
    using Cons.prems
    by (simp add: ends_Seq[of "Star (Chr any_char)"] ends_Star_any_step[OF Cons.prems] advance_def)
  have g: "chr_eq CHR ''>'' c \<longleftrightarrow> c = of_char CHR ''>''"
    by (simp add: chr_eq_def)
  show ?case
  proof (cases "ends ?T ?st'")
    case Nil
    then show ?thesis unfolding e using ih g by (auto simp: no_gt_ahead_def)
  next
    case (Cons x xs)
    then show ?thesis unfolding e using ih g by (auto simp: no_gt_ahead_def)
  qed
qed

lemmas ends_greedy_gt = ends_greedy_gt_aux [OF refl]


lemma match_literal_remaining_subset:
  "e \<in> set (match_literal w st) \<Longrightarrow> set (remaining e) \<subseteq> set (remaining st)"
proof (induction w arbitrary: st)
  case Nil
  then show ?case by simp
next
  case (Cons c w)
  show ?case
  proof (cases "remaining st")
    case Nil
    then show ?thesis using Cons.prems by simp
  next
    case (Cons d ds)
    then have "e \<in> set (match_literal w (st\<lparr>consumed := d # consumed st, remaining := ds\<rparr>))"
      using Cons.prems by (simp add: advance_def split: if_splits)
    from Cons.IH[OF this] show ?thesis using Cons by auto
  qed
qed

lemma advance_remaining_subset:
  "e \<in> set (advance st) \<Longrightarrow> set (remaining e) \<subseteq> set (remaining st)"
  by (cases "remaining st") (auto simp: advance_def)

lemma ends_remaining_subset:
  "e \<in> set (ends r st) \<Longrightarrow> set (remaining e) \<subseteq> set (remaining st)"
proof (induction r st arbitrary: e rule: ends.induct)
  case (1 p st)
  then have "e \<in> set (advance st)" by (auto split: list.splits if_splits)
  then show ?case by (rule advance_remaining_subset)
next
  case (3 a b st)
  then obtain x where "x \<in> set (ends a st)" "e \<in> set (ends b x)"
    by (auto simp: ends_Seq)
  then show ?case using "3.IH"(1)[of x] "3.IH"(2)[of x e] by blast
next
  case (5 a st)
  from "5.prems" have "e = st \<or> (\<exists>x\<in>set (ends a st). progress st x \<and> e \<in> set (ends (Star a) x))"
    by (subst (asm) ends_Star) auto
  then show ?case using "5.IH" by fastforce
next
  case (6 a st)
  from "6.prems" have "e = st \<or> (\<exists>x\<in>set (ends a st). progress st x \<and> e \<in> set (ends (LazyStar a) x))"
    by (subst (asm) ends_LazyStar) auto
  then show ?case using "6.IH" by fastforce
next
  case (7 a st)
  then have "e = st \<or> e \<in> set (ends a st)" by auto
  then show ?case using "7.IH" by blast
next
  case (11 n a st)
  then obtain x where "x \<in> set (ends a st)" "remaining e = remaining x"
    by (auto simp: set_capture_def)
  then show ?case using "11.IH"[of x] by simp
next
  case (12 n st)
  then show ?case using match_literal_remaining_subset by (auto split: option.splits)
qed (auto split: list.splits if_splits)

lemma search_Some_hd:
  "search r bef s = Some (st, e) \<Longrightarrow>
   (\<exists>es. ends r st = e # es) \<and> set (remaining st) \<subseteq> set s"
proof (induction s arbitrary: bef)
  case Nil
  then show ?case by (auto simp: search.simps Let_def split: list.splits)
next
  case (Cons c cs)
  show ?case
  proof (cases "ends r \<lparr>consumed = bef, remaining = c # cs, captures = []\<rparr>")
    case Nil
    then have "search r (c # bef) cs = Some (st, e)"
      using Cons.prems by (simp add: search.simps)
    then show ?thesis using Cons.IH by fastforce
  next
    case (Cons x xs)
    then show ?thesis using Cons.prems by (auto simp: search.simps)
  qed
qed

lemma search_None:
  "(\<And>st. set (remaining st) \<subseteq> set s \<Longrightarrow> ends r st = []) \<Longrightarrow> search r bef s = None"
proof (induction s arbitrary: bef)
  case Nil
  then show ?case by (simp add: search.simps)
next
  case (Cons c cs)
  have "search r (c # bef) cs = None"
    by (rule Cons.IH) (rule Cons.prems, auto)
  then show ?case using Cons.prems[of "\<lparr>consumed = bef, remaining = c # cs, captures = []\<rparr>"]
    by (simp add: search.simps)
qed

lemma ends_Seq_Nil: "(\<And>x. x \<in> set (ends a st) \<Longrightarrow> ends b x = []) \<Longrightarrow> ends (Seq a b) st = []"
  by (simp add: ends_Seq)

lemma ends_htmlTagPattern_needs_gt:
  assumes "of_char CHR ''>'' \<notin> set (remaining st)"
  shows "ends htmlTagPattern st = []"
proof -
  have T: "\<And>x. of_char CHR ''>'' \<notin> set (remaining x) \<Longrightarrow>
      ends (Seq (Star (Chr any_char)) (Seq (Chr (chr_eq CHR ''>'')) Empty)) x = []"
    using ends_greedy_gt by blast
  have sub: "\<And>a x y. of_char CHR ''>'' \<notin> set (remaining x) \<Longrightarrow> y \<in> set (ends a x) \<Longrightarrow>
      of_char CHR ''>'' \<notin> set (remaining y)"
    using ends_remaining_subset by blast
  show ?thesis
    unfolding htmlTagPattern_def seqs_def foldr.simps o_apply id_apply
    by (intro ends_Seq_Nil T sub[OF sub[OF sub[OF assms]]])
qed

lemma no_gt_ahead_htmlTagPattern: "no_gt_ahead (ends htmlTagPattern st)"
  unfolding htmlTagPattern_def seqs_def foldr.simps o_apply id_apply
  by (rule no_gt_ahead_Seq, rule no_gt_ahead_Seq, rule no_gt_ahead_Seq)
     (simp add: ends_greedy_gt)

lemma match_all_no_gt:
  "of_char CHR ''>'' \<notin> set s \<Longrightarrow> match_all htmlTagPattern bef s = []"
proof -
  assume a: "of_char CHR ''>'' \<notin> set s"
  have "search htmlTagPattern bef s = None"
    by (rule search_None) (rule ends_htmlTagPattern_needs_gt, use a in auto)
  then show ?thesis by (subst match_all.simps) simp
qed

lemma htmlTagCount_le_1: "length (match_all htmlTagPattern bef s) \<le> 1"
proof (cases "search htmlTagPattern bef s")
  case None
  then show ?thesis by (subst match_all.simps) simp
next
  case (Some p)
  obtain st e where p: "p = (st, e)" by (cases p)
  from Some p obtain es where "ends htmlTagPattern st = e # es"
    using search_Some_hd by blast
  then have g: "of_char CHR ''>'' \<notin> set (remaining e)"
    using no_gt_ahead_htmlTagPattern[of st] by (simp add: no_gt_ahead_def)
  then have rest: "match_all htmlTagPattern (consumed e) (remaining e) = []"
    by (rule match_all_no_gt)
  have tl: "\<And>c cs. remaining e = c # cs \<Longrightarrow> match_all htmlTagPattern (c # consumed e) cs = []"
    using g by (intro match_all_no_gt) auto
  show ?thesis
    using Some p rest tl
    by (subst match_all.simps) (simp add: Let_def split: list.splits)
qed

subsection \<open>Claims about the classifier\<close>

text \<open>
  Claim C3 does not hold of the code. The input \<open><p>**bold**</p>\<close> has two tag-like
  tokens, one of them a closing tag, and \<open>detectContentType\<close> answers \<open>Markdown\<close>.
  The rule for paired tags cannot decide any input: \<open>[\s\S]*\<close> in the tag pattern is
  greedy and runs to the last \<open>>\<close> of the text, so the pattern never matches twice and
  \<open>htmlTagCount\<close> is at most one. The answer is \<open>Markdown\<close> exactly when one of the
  thirteen patterns matches the trimmed text.
\<close>

theorem C3_paired_tags_rule_never_fires:
  "length (match_all tagToken [] (js ''<p>**bold**</p>'')) = 2 \<and>
   length (match_all closingTagToken [] (js ''<p>**bold**</p>'')) = 1 \<and>
   detectContentType (js ''<p>**bold**</p>'') = Markdown \<and>
   (\<forall>s bef. length (match_all htmlTagPattern bef s) \<le> 1) \<and>
   (\<forall>content. (detectContentType content = Markdown) = (0 < markdownScore (trim content)))"
proof (intro conjI allI)
  show "length (match_all tagToken [] (js ''<p>**bold**</p>'')) = 2"
    by (simp add: detect_eval str_eval rx_eval Let_def)
  show "length (match_all closingTagToken [] (js ''<p>**bold**</p>'')) = 1"
    by (simp add: detect_eval str_eval rx_eval Let_def)
  show "detectContentType (js ''<p>**bold**</p>'') = Markdown"
    by (simp add: detect_eval str_eval rx_eval Let_def)
next
  fix s bef
  show "length (match_all htmlTagPattern bef s) \<le> 1" by (rule htmlTagCount_le_1)
next
  fix content
  have z: "markdownScore [] = 0"
    by (simp add: markdownScore_def markdownPatterns_def dot_def chr_none_def rx_eval)
  have n: "\<not> 2 \<le> length (match_all htmlTagPattern [] (trim content))"
    using htmlTagCount_le_1[of "[]" "trim content"] by simp
  show "(detectContentType content = Markdown) = (0 < markdownScore (trim content))"
    using n z by (auto simp: detectContentType_def Let_def trim_Nil)
qed

subsection \<open>Lemmas about the dispatcher\<close>

lemmas dom_eval = linkSafety_def makeContext_def fails_def chr_one_of_def anchorPattern_def capture_def
  rewriteAnchor_def shortCircuit_def processedContent_def replace_all.simps truthy_def chr_none_def

lemma replace_not_tag:
  "ty \<noteq> Tag \<or> name = [] \<Longrightarrow>
   replace d R P (Element ty name attribs children) = Some (attribs, Undefined)"
  by auto

lemma replace_unregistered:
  "name \<noteq> [] \<Longrightarrow> map_of R (toLowerCase name) = None \<Longrightarrow>
   replace d R P (Element Tag name attribs children) =
     Some (if toLowerCase name = js ''a'' then linkSafety attribs else attribs, Undefined)"
  by (cases "toLowerCase name = js ''a''") (simp_all add: Let_def)

lemma replace_registered:
  assumes "name \<noteq> []" "map_of R (toLowerCase name) = Some f"
  shows "replace d R P (Element Tag name attribs children) =
     (case f (makeContext (toLowerCase name) attribs children) of
        Throws \<Rightarrow> Some (attribs, Undefined)
      | ReturnsElement rty props existingChildren \<Rightarrow>
          if children \<noteq> [] then
            (case domToReact d R P TopOptions children of
               None \<Rightarrow> None
             | Some childElements \<Rightarrow>
                 Some (attribs,
                   ReplacedElement (RElement rty props (existingChildren @ childElements))))
          else Some (attribs, ReplacedElement (RElement rty props existingChildren))
      | ReturnsString result \<Rightarrow>
          if startsWith (trim result) (js ''<'') then
            (case d of
               0 \<Rightarrow> None
             | Suc d' \<Rightarrow>
                 (case domToReact d' R P (RecursiveOptions (toLowerCase name)) (P result) of
                    None \<Rightarrow> None
                  | Some parsed \<Rightarrow> Some (attribs, ReplacedParsed parsed)))
          else Some (attribs, ReplacedString result)
      | ReturnsOther \<Rightarrow> Some (attribs, Undefined))"
proof (cases "toLowerCase name = js ''a''")
  case True
  then have "map_of R (js ''a'') = Some f" using assms(2) by simp
  then show ?thesis using assms True
    by (simp add: Let_def cong: RendererResult.case_cong if_cong nat.case_cong)
next
  case False
  then show ?thesis using assms by (simp add: Let_def)
qed

lemmas replace_Element = replace.simps(3)

declare replace.simps(3) [simp del]

lemma replace_quiet:
  assumes "ty = Tag \<and> name \<noteq> [] \<Longrightarrow> quietAt R name attribs children"
  shows "\<exists>r. replace d R P (Element ty name attribs children) =
     Some (defaultAttribs (map_of R (js ''a'') = None) ty name attribs, r) \<and> accepted r = None"
proof (cases "ty = Tag \<and> name \<noteq> []")
  case False
  then show ?thesis by (auto simp: defaultAttribs_def replace_not_tag)
next
  case True
  show ?thesis
  proof (cases "map_of R (toLowerCase name)")
    case None
    then show ?thesis using True by (auto simp: defaultAttribs_def replace_unregistered)
  next
    case (Some f)
    let ?ctx = "makeContext (toLowerCase name) attribs children"
    have b: "(if toLowerCase name = js ''a'' \<and> map_of R (js ''a'') = None
             then linkSafety attribs else attribs) = attribs"
      using Some by auto
    have i: "inert (f ?ctx)"
      using Some assms[OF True] unfolding quietAt_def b by simp
    have a: "defaultAttribs (map_of R (js ''a'') = None) ty name attribs = attribs"
      using Some by (auto simp: defaultAttribs_def)
    show ?thesis
      using True Some i unfolding a
      by (cases "f ?ctx") (simp_all add: replace_registered inert_def)
  qed
qed

lemma toLowerCase_idem: "toLowerCase (toLowerCase s) = toLowerCase s"
  by (induction s) (auto simp: toLowerCase_def lower_char_def)

lemma domToReact_quiet:
  assumes "quiet R opts nodes"
    and "\<And>t. opts = RecursiveOptions t \<Longrightarrow> toLowerCase t = t \<and> map_of R t \<noteq> None"
  shows "domToReact d R P opts nodes = Some (defaultRender (map_of R (js ''a'') = None) nodes)"
  using assms
proof (induction R opts nodes rule: quiet.induct)
  case (1 R opts)
  show ?case by simp
next
  case (2 R opts s rest)
  then show ?case by (cases opts) simp_all
next
  case (3 R opts rest)
  then show ?case by (cases opts) simp_all
next
  case (4 R opts ty name attribs children rest)
  let ?links = "map_of R (js ''a'') = None"
  have kids: "domToReact d R P opts children = Some (defaultRender ?links children)"
    using 4 by simp
  have rest: "domToReact d R P opts rest = Some (defaultRender ?links rest)"
    using 4 by simp
  have step: "\<exists>r. (case opts of
              TopOptions \<Rightarrow> replace d R P (Element ty name attribs children)
            | RecursiveOptions tag \<Rightarrow> recursiveReplace d R P tag (Element ty name attribs children))
      = Some (defaultAttribs ?links ty name attribs, r) \<and> accepted r = None"
  proof (cases "opts = RecursiveOptions name \<and> ty = Tag")
    case True
    then have "toLowerCase name = name" "map_of R name \<noteq> None"
      using "4.prems"(2)[of name] by simp_all
    then have "defaultAttribs ?links ty name attribs = attribs"
      by (auto simp: defaultAttribs_def)
    then show ?thesis using True by simp
  next
    case False
    have q: "ty = Tag \<and> name \<noteq> [] \<Longrightarrow> quietAt R name attribs children"
      using "4.prems"(1) False by (cases opts) auto
    show ?thesis using False replace_quiet[OF q] by (cases opts) auto
  qed
  then obtain r where r: "(case opts of
              TopOptions \<Rightarrow> replace d R P (Element ty name attribs children)
            | RecursiveOptions tag \<Rightarrow> recursiveReplace d R P tag (Element ty name attribs children))
      = Some (defaultAttribs ?links ty name attribs, r)" and acc: "accepted r = None"
    by blast
  show ?case
    by (simp only: domToReact.simps r) (simp add: acc kids rest)
qed

lemma fails_inert: "fails r \<Longrightarrow> inert r"
  by (auto simp: fails_def inert_def)

lemma loop_replace_None:
  "replace d loopRenderers loopParser (Element Tag (js ''div'') attribs children) = None \<and>
   replace d loopRenderers loopParser (Element Tag (js ''p'') attribs' children') = None"
proof (induction d arbitrary: attribs children attribs' children')
  case 0
  show ?case by (simp add: loopRenderers_def str_eval Let_def replace_Element)
next
  case (Suc d)
  have p: "replace d loopRenderers loopParser (Element Tag (js ''p'') [] []) = None"
    using Suc by blast
  have d: "replace d loopRenderers loopParser (Element Tag (js ''div'') [] []) = None"
    using Suc by blast
  have ne: "js ''p'' \<noteq> js ''div''" by (simp add: js_def)
  have f1: "domToReact d loopRenderers loopParser (RecursiveOptions (js ''div''))
      (loopParser (js ''<div><p></p></div>'')) = None"
    using p ne by (simp add: loopParser_def)
  have f2: "domToReact d loopRenderers loopParser (RecursiveOptions (js ''p''))
      (loopParser (js ''<div></div>'')) = None"
    using d ne by (simp add: loopParser_def js_def)
  have l: "toLowerCase (js ''div'') = js ''div''" "toLowerCase (js ''p'') = js ''p''"
    "startsWith (trim (js ''<div><p></p></div>'')) (js ''<'')"
    "startsWith (trim (js ''<div></div>'')) (js ''<'')"
    by (simp_all add: str_eval)
  show ?case
    using f1 f2 l
    by (simp add: loopRenderers_def Let_def replace_Element js_def[of "''div''"]
          js_def[of "''p''"] js_def[of "''a''"])
qed

lemma js_attr_distinct:
  "js ''href'' \<noteq> js ''target''" "js ''href'' \<noteq> js ''rel''" "js ''target'' \<noteq> js ''rel''"
  "js ''target'' \<noteq> js ''href''" "js ''rel'' \<noteq> js ''href''" "js ''rel'' \<noteq> js ''target''"
  by (simp_all add: js_def)

lemma normalizeUrl_Nil: "normalizeUrl [] = []"
  by (simp add: normalizeUrl_def)

lemma linkSafety_href:
  "map_of (linkSafety attribs) (js ''href'') = map_option normalizeUrl (map_of attribs (js ''href''))"
  by (auto simp: linkSafety_def Let_def update_conv' js_attr_distinct normalizeUrl_Nil
        split: option.splits)

lemma linkSafety_target:
  "map_of (linkSafety attribs) (js ''target'') =
     (if truthy (map_of attribs (js ''target'')) then map_of attribs (js ''target'')
      else Some (js ''_blank''))"
  by (auto simp: linkSafety_def Let_def update_conv' js_attr_distinct split: option.splits)

lemma linkSafety_rel:
  "map_of (linkSafety attribs) (js ''rel'') =
     (if truthy (map_of attribs (js ''rel'')) then map_of attribs (js ''rel'')
      else Some (js ''noopener noreferrer''))"
  by (auto simp: linkSafety_def Let_def update_conv' js_attr_distinct split: option.splits)

lemma linkSafety_other:
  "key \<noteq> js ''href'' \<Longrightarrow> key \<noteq> js ''target'' \<Longrightarrow> key \<noteq> js ''rel'' \<Longrightarrow>
   map_of (linkSafety attribs) key = map_of attribs key"
  by (auto simp: linkSafety_def Let_def update_conv' split: option.splits)

lemma toLowerCase_a_nonempty: "toLowerCase name = js ''a'' \<Longrightarrow> name \<noteq> []"
  by (auto simp: toLowerCase_def js_def)


lemma agree_map_of:
  assumes "agreeOnEmptyContexts R R'"
  shows "(map_of R t = None \<longrightarrow> map_of R' t = None) \<and>
     (\<forall>f. map_of R t = Some f \<longrightarrow>
        (\<exists>f'. map_of R' t = Some f' \<and>
           (\<forall>context. innerHTML context = [] \<and> originalHTML context = [] \<longrightarrow>
              f context = f' context)))"
  using assms unfolding agreeOnEmptyContexts_def
  by (induction R R' rule: list_all2_induct) auto

lemma makeContext_empty:
  "innerHTML (makeContext name attribs children) = [] \<and>
   originalHTML (makeContext name attribs children) = []"
  by (simp add: makeContext_def)

lemma agree_replace:
  assumes ag: "agreeOnEmptyContexts R R'"
    and kids: "domToReact d R P TopOptions children = domToReact d R' P TopOptions children"
    and deep: "\<And>d' t s. d = Suc d' \<Longrightarrow>
        domToReact d' R P (RecursiveOptions t) (P s) = domToReact d' R' P (RecursiveOptions t) (P s)"
  shows "replace d R P (Element ty name attribs children) =
         replace d R' P (Element ty name attribs children)"
proof (cases "ty = Tag \<and> name \<noteq> []")
  case False
  then show ?thesis by (simp add: replace_not_tag)
next
  case True
  then have ty: "ty = Tag" and ne: "name \<noteq> []" by simp_all
  show ?thesis
  proof (cases "map_of R (toLowerCase name)")
    case None
    then have "map_of R' (toLowerCase name) = None" using agree_map_of[OF ag] by blast
    then show ?thesis using None ne ty by (simp add: replace_unregistered)
  next
    case (Some f)
    then obtain f' where f': "map_of R' (toLowerCase name) = Some f'"
      and eq: "\<And>context. innerHTML context = [] \<and> originalHTML context = [] \<Longrightarrow>
          f context = f' context"
      using agree_map_of[OF ag, of "toLowerCase name"] by blast
    have same: "f' (makeContext (toLowerCase name) attribs children) =
        f (makeContext (toLowerCase name) attribs children)"
      using eq[OF makeContext_empty] by simp
    show ?thesis
      unfolding ty replace_registered[OF ne Some] replace_registered[OF ne f'] same
      using kids deep
      by (auto split: RendererResult.splits nat.splits)
  qed
qed

lemma agree_domToReact:
  assumes ag: "agreeOnEmptyContexts R R'"
  shows "domToReact d R P opts nodes = domToReact d R' P opts nodes"
proof (induction d arbitrary: opts nodes rule: less_induct)
  case (less d)
  note outer = less.IH
  show ?case
  proof (induction nodes arbitrary: opts rule: measure_induct_rule[where f = "size_list size"])
    case (less nodes)
    show ?case
    proof (cases nodes)
      case Nil
      then show ?thesis by simp
    next
      case (Cons node rest)
      have rest: "domToReact d R P opts rest = domToReact d R' P opts rest"
        by (rule less.IH) (simp add: Cons)
      have kids: "\<And>ty name attribs children o'. node = Element ty name attribs children \<Longrightarrow>
          domToReact d R P o' children = domToReact d R' P o' children"
        by (rule less.IH) (simp add: Cons)
      have deep: "\<And>d' t s. d = Suc d' \<Longrightarrow>
          domToReact d' R P (RecursiveOptions t) (P s) = domToReact d' R' P (RecursiveOptions t) (P s)"
        using outer by simp
      have rep: "replace d R P node = replace d R' P node"
      proof (cases node)
        case (Element ty name attribs children)
        then show ?thesis using agree_replace[OF ag kids[OF Element] deep] by simp
      qed simp_all
      have rrep: "\<And>t. recursiveReplace d R P t node = recursiveReplace d R' P t node"
        using rep by (cases node) simp_all
      have step: "(case opts of TopOptions \<Rightarrow> replace d R P node
            | RecursiveOptions tag \<Rightarrow> recursiveReplace d R P tag node) =
          (case opts of TopOptions \<Rightarrow> replace d R' P node
            | RecursiveOptions tag \<Rightarrow> recursiveReplace d R' P tag node)"
        using rep rrep by (cases opts) simp_all
      show ?thesis
        unfolding Cons domToReact.simps step rest
        using kids by (auto split: option.splits DOMNode.splits)
    qed
  qed
qed

end
